theory Spec2Isabelle
  imports Main "HOL-Library.Word"
begin

unbundle bit_operations_syntax

section \<open>The ring of videoq.c\<close>

text \<open>
  A shallow embedding of \<^verbatim>\<open>src/videoq/videoq.c\<close>: one sender, several receivers and
  one shared control block (\<^verbatim>\<open>struct Inner\<close>) guarded by a mutex.

  \<^item> \<^verbatim>\<open>uint8_t\<close> is \<open>8 word\<close> and \<^verbatim>\<open>uint64_t\<close> is \<open>64 word\<close>, so \<^verbatim>\<open>++\<close> and \<^verbatim>\<open>--\<close> wrap.
  \<^item> \<^verbatim>\<open>size_t\<close> values are indices and counts; they are \<open>nat\<close>.
  \<^item> The three arrays of \<^verbatim>\<open>struct Inner\<close> are lists; the predicate \<open>ring_ok\<close> below
    states what the C types and memory safety need of them.
  \<^item> A segment pointer and the buffer behind it are one value of type \<open>segment\<close>:
    \<open>Null\<close> for a \<^verbatim>\<open>NULL\<close> pointer, \<open>Fresh\<close> for a buffer that \<^verbatim>\<open>malloc\<close> returned and
    nothing has written (its bytes are indeterminate), \<open>Payload bs\<close> for a buffer
    holding the bytes \<open>bs\<close>. \<^verbatim>\<open>malloc\<close> is taken to succeed, as the source takes it.
  \<^item> The mutex is the field \<open>lock\<close> (\<open>True\<close> when held). A critical section is modelled
    whole, so a call finds the mutex held only after an earlier call returned without
    releasing it; then nobody is left to release it and \<^verbatim>\<open>pthread_mutex_lock\<close> never
    returns. That outcome is the fault \<open>Blocked\<close>.
  \<^item> \<open>Uninitialised\<close> is the fault of reading a field of a receiver struct that
    nothing has assigned.
\<close>

type_synonym u8 = "8 word"
type_synonym u64 = "64 word"

definition MAX_SEGMENTS :: nat where
  "MAX_SEGMENTS = 16"

definition FLAG_CONFLATION :: u8 where
  "FLAG_CONFLATION = 1"

definition FLAG_NO_SENDER :: u8 where
  "FLAG_NO_SENDER = 2"

definition NO_RECEIVERS :: int where
  "NO_RECEIVERS = 1"

definition SENDER_CLOSED :: int where
  "SENDER_CLOSED = 2"

definition MAX_RECEIVERS :: int where
  "MAX_RECEIVERS = 3"

datatype segment = Null | Fresh | Payload "u8 list"

record Inner =
  lock :: bool
  segments :: "segment list"
  timestamps :: "u64 list"
  num_borrows :: "u8 list"
  num_segments :: nat
  bufsize :: nat
  last_written_block :: nat
  prev_written_block :: nat
  num_receivers :: u8
  flags :: u8

text \<open>
  The handles. The pointer \<^verbatim>\<open>ringq\<close> of both structs is left out: there is one ring.
  \<^verbatim>\<open>new_ringq\<close> and \<^verbatim>\<open>new_receiver\<close> leave \<^verbatim>\<open>index\<close>, \<^verbatim>\<open>data_ptr\<close> and \<^verbatim>\<open>timestamp\<close>
  unassigned, which is \<open>None\<close> here. \<^verbatim>\<open>data_ptr\<close> holds the address found in
  \<^verbatim>\<open>segments[index]\<close>; a slot's buffer is allocated once and never moved, so the
  address is represented by the number of the slot that owns the buffer.
\<close>

record Sender =
  s_bufsize :: nat

record Receiver =
  r_bufsize :: nat
  index :: "nat option"
  data_ptr :: "nat option"
  timestamp :: "u64 option"

record SenderReceiverPair =
  sender :: Sender
  receiver :: Receiver

datatype fault = Blocked | Uninitialised

text \<open>What a first critical section hands on: a value the call returns at once, or
  the slot it picked.\<close>

datatype section_result = Returned int | Picked nat

text \<open>The control block after \<^verbatim>\<open>free_ringq\<close> is gone.\<close>

datatype ring_state = Live Inner | Freed

subsection \<open>The mutex\<close>

definition pthread_mutex_lock :: "Inner \<Rightarrow> fault + Inner" where
  "pthread_mutex_lock ringq =
     (if lock ringq then Inl Blocked else Inr (ringq\<lparr>lock := True\<rparr>))"

definition pthread_mutex_unlock :: "Inner \<Rightarrow> Inner" where
  "pthread_mutex_unlock ringq = ringq\<lparr>lock := False\<rparr>"

subsection \<open>Internal functions\<close>

text \<open>\<^verbatim>\<open>init_ringq\<close>: the loop assigns every one of the \<^verbatim>\<open>MAX_SEGMENTS\<close> entries of the
  three arrays, then three buffers are allocated. Only \<^verbatim>\<open>bufsize\<close> is read.\<close>

definition init_ringq :: "Inner \<Rightarrow> Inner" where
  "init_ringq ringq = ringq
     \<lparr> lock := False,
       segments := (replicate MAX_SEGMENTS Null)[0 := Fresh, 1 := Fresh, 2 := Fresh],
       timestamps := replicate MAX_SEGMENTS 0,
       num_borrows := replicate MAX_SEGMENTS 0,
       num_segments := 3,
       last_written_block := 0,
       prev_written_block := 1,
       num_receivers := 1,
       flags := 0 \<rparr>"

text \<open>\<^verbatim>\<open>_get_free_writer\<close>: the \<^verbatim>\<open>for\<close> loop from counter \<open>i\<close> on; \<^verbatim>\<open>continue\<close> and the
  failed test go to \<open>i + 1\<close>, \<^verbatim>\<open>break\<close> returns \<open>i\<close>, and the loop's end returns the
  initial value of \<^verbatim>\<open>free_writer\<close>.\<close>

function free_writer_loop :: "Inner \<Rightarrow> nat \<Rightarrow> nat" where
  "free_writer_loop ringq i =
     (if i < num_segments ringq then
        (if i = last_written_block ringq then free_writer_loop ringq (i + 1)
         else if num_borrows ringq ! i = 0 then i
         else free_writer_loop ringq (i + 1))
      else last_written_block ringq)"
  by pat_completeness auto
termination
  by (relation "measure (\<lambda>(ringq, i). num_segments ringq - i)") auto

declare free_writer_loop.simps [simp del]

definition get_free_writer :: "Inner \<Rightarrow> nat" where
  "get_free_writer ringq = free_writer_loop ringq 0"

definition get_recv_index :: "Inner \<Rightarrow> nat" where
  "get_recv_index ringq =
     (if flags ringq AND FLAG_CONFLATION \<noteq> 0 then last_written_block ringq
      else prev_written_block ringq)"

definition new_segment :: "Inner \<Rightarrow> int \<times> Inner" where
  "new_segment ringq =
     (if num_segments ringq = MAX_SEGMENTS then (MAX_RECEIVERS, ringq)
      else (0, ringq\<lparr> segments := (segments ringq)[num_segments ringq := Fresh],
                      num_segments := num_segments ringq + 1 \<rparr>))"

definition free_ringq :: "Inner \<Rightarrow> ring_state" where
  "free_ringq ringq = Freed"

subsection \<open>Public functions\<close>

text \<open>A block from \<^verbatim>\<open>malloc\<close> has indeterminate contents. \<^verbatim>\<open>new_ringq\<close> assigns \<^verbatim>\<open>bufsize\<close>
  and \<^verbatim>\<open>init_ringq\<close> every other field, so nothing of the block chosen here is left
  (lemma \<open>init_ringq_any_block\<close>).\<close>

definition malloc_Inner :: Inner where
  "malloc_Inner =
     \<lparr> lock = False, segments = [], timestamps = [], num_borrows = [],
       num_segments = 0, bufsize = 0, last_written_block = 0,
       prev_written_block = 0, num_receivers = 0, flags = 0 \<rparr>"

definition new_receiver_struct :: "nat \<Rightarrow> Receiver" where
  "new_receiver_struct b =
     \<lparr> r_bufsize = b, index = None, data_ptr = None, timestamp = None \<rparr>"

definition new_ringq :: "nat \<Rightarrow> Inner \<times> SenderReceiverPair" where
  "new_ringq b =
     (init_ringq (malloc_Inner\<lparr>bufsize := b\<rparr>),
      \<lparr> sender = \<lparr> s_bufsize = b \<rparr>, receiver = new_receiver_struct b \<rparr>)"

text \<open>
  \<^verbatim>\<open>send\<close> in its three parts: the first critical section, the copy made with the
  mutex released, and the second critical section. The early return of the first
  section comes before any \<^verbatim>\<open>pthread_mutex_unlock\<close>, as in the source. \<^verbatim>\<open>memcpy\<close> reads
  \<^verbatim>\<open>bufsize\<close> bytes of \<open>data\<close>; the caller is to pass at least that many.
\<close>

definition send_begin :: "Inner \<Rightarrow> fault + (section_result \<times> Inner)" where
  "send_begin ringq =
     (case pthread_mutex_lock ringq of
        Inl f \<Rightarrow> Inl f
      | Inr r1 \<Rightarrow>
          if num_receivers r1 = 0 then Inr (Returned NO_RECEIVERS, r1)
          else
            let free_writer = get_free_writer r1;
                r2 = (if free_writer = last_written_block r1
                      then r1\<lparr>flags := flags r1 OR FLAG_CONFLATION\<rparr>
                      else r1\<lparr>prev_written_block := last_written_block r1\<rparr>)
            in Inr (Picked free_writer, pthread_mutex_unlock r2))"

definition send_copy :: "Inner \<Rightarrow> nat \<Rightarrow> u8 list \<Rightarrow> u64 \<Rightarrow> Inner" where
  "send_copy ringq free_writer data ts =
     ringq\<lparr> segments := (segments ringq)[free_writer := Payload (take (bufsize ringq) data)],
            timestamps := (timestamps ringq)[free_writer := ts] \<rparr>"

definition send_end :: "Inner \<Rightarrow> nat \<Rightarrow> fault + Inner" where
  "send_end ringq free_writer =
     (case pthread_mutex_lock ringq of
        Inl f \<Rightarrow> Inl f
      | Inr r1 \<Rightarrow>
          Inr (pthread_mutex_unlock
                 (r1\<lparr> last_written_block := free_writer,
                       flags := flags r1 AND NOT FLAG_CONFLATION \<rparr>)))"

definition send :: "Inner \<Rightarrow> u8 list \<Rightarrow> u64 \<Rightarrow> fault + (int \<times> Inner)" where
  "send ringq data ts =
     (case send_begin ringq of
        Inl f \<Rightarrow> Inl f
      | Inr (Returned ret, r1) \<Rightarrow> Inr (ret, r1)
      | Inr (Picked free_writer, r1) \<Rightarrow>
          (case send_end (send_copy r1 free_writer data ts) free_writer of
             Inl f \<Rightarrow> Inl f
           | Inr r2 \<Rightarrow> Inr (0, r2)))"

definition free_sender :: "Inner \<Rightarrow> fault + ring_state" where
  "free_sender ringq =
     (case pthread_mutex_lock ringq of
        Inl f \<Rightarrow> Inl f
      | Inr r1 \<Rightarrow>
          let r2 = r1\<lparr>flags := flags r1 OR FLAG_NO_SENDER\<rparr>
          in if num_receivers r2 = 0 then Inr (free_ringq r2)
             else Inr (Live (pthread_mutex_unlock r2)))"

text \<open>\<^verbatim>\<open>start_recv\<close> in its two parts: the critical section, and the three assignments
  to the receiver that follow the unlock.\<close>

definition start_recv_lock :: "Inner \<Rightarrow> fault + (section_result \<times> Inner)" where
  "start_recv_lock ringq =
     (case pthread_mutex_lock ringq of
        Inl f \<Rightarrow> Inl f
      | Inr r1 \<Rightarrow>
          if flags r1 AND FLAG_NO_SENDER \<noteq> 0
          then Inr (Returned SENDER_CLOSED, pthread_mutex_unlock r1)
          else
            let ix = get_recv_index r1
            in Inr (Picked ix,
                    pthread_mutex_unlock
                      (r1\<lparr>num_borrows := (num_borrows r1)[ix := num_borrows r1 ! ix + 1]\<rparr>)))"

definition start_recv_read :: "Inner \<Rightarrow> Receiver \<Rightarrow> nat \<Rightarrow> Receiver" where
  "start_recv_read ringq rcv ix =
     rcv\<lparr> index := Some ix, data_ptr := Some ix,
          timestamp := Some (timestamps ringq ! ix) \<rparr>"

definition start_recv :: "Inner \<Rightarrow> Receiver \<Rightarrow> fault + (int \<times> Inner \<times> Receiver)" where
  "start_recv ringq rcv =
     (case start_recv_lock ringq of
        Inl f \<Rightarrow> Inl f
      | Inr (Returned ret, r1) \<Rightarrow> Inr (ret, r1, rcv)
      | Inr (Picked ix, r1) \<Rightarrow> Inr (0, r1, start_recv_read r1 rcv ix))"

definition end_recv :: "Inner \<Rightarrow> Receiver \<Rightarrow> fault + (int \<times> Inner)" where
  "end_recv ringq rcv =
     (case pthread_mutex_lock ringq of
        Inl f \<Rightarrow> Inl f
      | Inr r1 \<Rightarrow>
          (case index rcv of
             None \<Rightarrow> Inl Uninitialised
           | Some ix \<Rightarrow>
               Inr (0, pthread_mutex_unlock
                         (r1\<lparr>num_borrows := (num_borrows r1)[ix := num_borrows r1 ! ix - 1]\<rparr>))))"

text \<open>\<^verbatim>\<open>new_receiver\<close> returns the new struct, the value stored through \<^verbatim>\<open>error\<close>, and
  the ring.\<close>

definition new_receiver :: "Inner \<Rightarrow> Receiver \<Rightarrow> fault + (Receiver \<times> int \<times> Inner)" where
  "new_receiver ringq rcv =
     (case pthread_mutex_lock ringq of
        Inl f \<Rightarrow> Inl f
      | Inr r1 \<Rightarrow>
          (case new_segment r1 of
             (err, r2) \<Rightarrow>
               let r3 = (if err = 0 then r2\<lparr>num_receivers := num_receivers r2 + 1\<rparr> else r2)
               in Inr (new_receiver_struct (r_bufsize rcv), err, pthread_mutex_unlock r3)))"

text \<open>
  Modelled from the spec: the receiver's drop, which is not among the source files.
  The spec (4.3): acquire \<^verbatim>\<open>lock\<close>, decrement \<^verbatim>\<open>num_receivers\<close>; if \<^verbatim>\<open>NO_SENDER\<close> is set and
  \<^verbatim>\<open>num_receivers == 0\<close>, call \<^verbatim>\<open>destroy()\<close>; otherwise release \<^verbatim>\<open>lock\<close>.
\<close>

definition drop_recv :: "Inner \<Rightarrow> fault + ring_state" where
  "drop_recv ringq =
     (case pthread_mutex_lock ringq of
        Inl f \<Rightarrow> Inl f
      | Inr r1 \<Rightarrow>
          let r2 = r1\<lparr>num_receivers := num_receivers r1 - 1\<rparr>
          in if flags r2 AND FLAG_NO_SENDER \<noteq> 0 \<and> num_receivers r2 = 0
             then Inr (free_ringq r2)
             else Inr (Live (pthread_mutex_unlock r2)))"

text \<open>What a receiver reads through \<^verbatim>\<open>data_ptr\<close>.\<close>

definition payload_seen :: "Inner \<Rightarrow> Receiver \<Rightarrow> segment option" where
  "payload_seen ringq rcv = map_option (\<lambda>p. segments ringq ! p) (data_ptr rcv)"

text \<open>What the array types of \<^verbatim>\<open>struct Inner\<close> and memory safety need: the arrays
  have \<^verbatim>\<open>MAX_SEGMENTS\<close> entries, the indices the code uses are in range, and the
  first \<^verbatim>\<open>num_segments\<close> pointers are not \<^verbatim>\<open>NULL\<close>.\<close>

definition ring_ok :: "Inner \<Rightarrow> bool" where
  "ring_ok ringq \<longleftrightarrow>
     length (segments ringq) = MAX_SEGMENTS \<and>
     length (timestamps ringq) = MAX_SEGMENTS \<and>
     length (num_borrows ringq) = MAX_SEGMENTS \<and>
     num_segments ringq \<le> MAX_SEGMENTS \<and>
     last_written_block ringq < num_segments ringq \<and>
     prev_written_block ringq < num_segments ringq \<and>
     (\<forall>i < num_segments ringq. segments ringq ! i \<noteq> Null)"

text \<open>Pool sufficiency: at least three segments, and two more than there are
  receivers.\<close>

definition pool_ok :: "Inner \<Rightarrow> bool" where
  "pool_ok ringq \<longleftrightarrow> max 3 (unat (num_receivers ringq) + 2) \<le> num_segments ringq"

subsection \<open>Scenarios\<close>

text \<open>The slot the next \<^verbatim>\<open>send\<close> on this ring writes, and whether its first critical
  section sets \<^verbatim>\<open>FLAG_CONFLATION\<close>; \<open>None\<close> when \<^verbatim>\<open>send\<close> picks no slot.\<close>

definition send_target :: "Inner \<Rightarrow> (nat \<times> bool) option" where
  "send_target ringq =
     (case send_begin ringq of
        Inr (Picked free_writer, r1) \<Rightarrow>
          Some (free_writer, flags r1 AND FLAG_CONFLATION \<noteq> 0)
      | _ \<Rightarrow> None)"

text \<open>\<open>n\<close> calls of \<^verbatim>\<open>new_receiver\<close> in a row, each on the receiver the call before
  returned, with the error codes in order.\<close>

fun clones :: "nat \<Rightarrow> Inner \<Rightarrow> Receiver \<Rightarrow> fault + (int list \<times> Inner)" where
  "clones 0 ringq rcv = Inr ([], ringq)"
| "clones (Suc n) ringq rcv =
     (case new_receiver ringq rcv of
        Inl f \<Rightarrow> Inl f
      | Inr (rcv', err, r1) \<Rightarrow>
          (case clones n r1 rcv' of
             Inl f \<Rightarrow> Inl f
           | Inr (errs, r2) \<Rightarrow> Inr (err # errs, r2)))"

subsection \<open>Threads\<close>

text \<open>
  One sender thread and one thread per receiver handle, interleaved. A step is what a
  thread does without another thread being able to observe a state in between: a
  whole critical section, or the unlocked part of \<^verbatim>\<open>send\<close> or \<^verbatim>\<open>start_recv\<close>. A call
  that blocks on the mutex takes no step. The copy of \<^verbatim>\<open>send\<close> is one step: from the
  end of the first critical section to the start of the second the sender's slot is
  the one \<open>SCopying\<close> and \<open>SCopied\<close> name, and the copy changes nothing but that
  slot's buffer and timestamp.

  The sender is between calls (\<open>SIdle\<close>), has picked slot \<open>t\<close> and released the mutex
  (\<open>SCopying t\<close>), has copied the payload (\<open>SCopied t\<close>), or is dropped. A receiver is
  between borrows (\<open>RIdle\<close>), has left the critical section of \<^verbatim>\<open>start_recv\<close> with
  slot \<open>ix\<close> (\<open>RAcquired ix\<close>), or holds the borrow its struct records (\<open>RHolding\<close>).
  Callers keep to the protocol of the interface: \<^verbatim>\<open>start_recv\<close> and \<^verbatim>\<open>end_recv\<close>
  alternate on each handle, a handle is dropped between borrows, a handle a failed
  \<^verbatim>\<open>new_receiver\<close> returned is not used, and nothing is called on a freed ring.
\<close>

datatype sender_pc = SIdle | SCopying nat | SCopied nat | SDropped

datatype recv_pc = RIdle | RAcquired nat | RHolding

record sys =
  ring :: ring_state
  sender_at :: sender_pc
  handles :: "(Receiver \<times> recv_pc) list"

datatype action =
    SendBegin | SendCopy "u8 list" u64 | SendEnd | FreeSender
  | StartRecvLock nat | StartRecvRead nat | EndRecv nat | NewReceiver nat | DropRecv nat

definition init_sys :: "nat \<Rightarrow> sys" where
  "init_sys b =
     \<lparr> ring = Live (fst (new_ringq b)), sender_at = SIdle,
       handles = [(receiver (snd (new_ringq b)), RIdle)] \<rparr>"

inductive step :: "sys \<Rightarrow> action \<Rightarrow> sys \<Rightarrow> bool" where
  send_returns:
    "ring s = Live r \<Longrightarrow> sender_at s = SIdle \<Longrightarrow>
     send_begin r = Inr (Returned ret, r1) \<Longrightarrow>
     step s SendBegin (s\<lparr>ring := Live r1\<rparr>)"
| send_picks:
    "ring s = Live r \<Longrightarrow> sender_at s = SIdle \<Longrightarrow>
     send_begin r = Inr (Picked fw, r1) \<Longrightarrow>
     step s SendBegin (s\<lparr>ring := Live r1, sender_at := SCopying fw\<rparr>)"
| send_copies:
    "ring s = Live r \<Longrightarrow> sender_at s = SCopying fw \<Longrightarrow>
     step s (SendCopy data ts)
       (s\<lparr>ring := Live (send_copy r fw data ts), sender_at := SCopied fw\<rparr>)"
| send_ends:
    "ring s = Live r \<Longrightarrow> sender_at s = SCopied fw \<Longrightarrow>
     send_end r fw = Inr r1 \<Longrightarrow>
     step s SendEnd (s\<lparr>ring := Live r1, sender_at := SIdle\<rparr>)"
| sender_drops:
    "ring s = Live r \<Longrightarrow> sender_at s = SIdle \<Longrightarrow>
     free_sender r = Inr st \<Longrightarrow>
     step s FreeSender (s\<lparr>ring := st, sender_at := SDropped\<rparr>)"
| recv_closed:
    "ring s = Live r \<Longrightarrow> k < length (handles s) \<Longrightarrow>
     handles s ! k = (rcv, RIdle) \<Longrightarrow>
     start_recv_lock r = Inr (Returned ret, r1) \<Longrightarrow>
     step s (StartRecvLock k) (s\<lparr>ring := Live r1\<rparr>)"
| recv_acquires:
    "ring s = Live r \<Longrightarrow> k < length (handles s) \<Longrightarrow>
     handles s ! k = (rcv, RIdle) \<Longrightarrow>
     start_recv_lock r = Inr (Picked ix, r1) \<Longrightarrow>
     step s (StartRecvLock k)
       (s\<lparr>ring := Live r1, handles := (handles s)[k := (rcv, RAcquired ix)]\<rparr>)"
| recv_reads:
    "ring s = Live r \<Longrightarrow> k < length (handles s) \<Longrightarrow>
     handles s ! k = (rcv, RAcquired ix) \<Longrightarrow>
     step s (StartRecvRead k)
       (s\<lparr>handles := (handles s)[k := (start_recv_read r rcv ix, RHolding)]\<rparr>)"
| recv_ends:
    "ring s = Live r \<Longrightarrow> k < length (handles s) \<Longrightarrow>
     handles s ! k = (rcv, RHolding) \<Longrightarrow>
     end_recv r rcv = Inr (ret, r1) \<Longrightarrow>
     step s (EndRecv k)
       (s\<lparr>ring := Live r1, handles := (handles s)[k := (rcv, RIdle)]\<rparr>)"
| recv_clones:
    "ring s = Live r \<Longrightarrow> k < length (handles s) \<Longrightarrow>
     handles s ! k = (rcv, pc) \<Longrightarrow>
     new_receiver r rcv = Inr (rcv', err, r1) \<Longrightarrow>
     step s (NewReceiver k)
       (s\<lparr>ring := Live r1,
          handles := (if err = 0 then handles s @ [(rcv', RIdle)] else handles s)\<rparr>)"
| recv_drops:
    "ring s = Live r \<Longrightarrow> k < length (handles s) \<Longrightarrow>
     handles s ! k = (rcv, RIdle) \<Longrightarrow>
     drop_recv r = Inr st \<Longrightarrow>
     step s (DropRecv k)
       (s\<lparr>ring := st, handles := take k (handles s) @ drop (Suc k) (handles s)\<rparr>)"

code_pred step .

inductive run :: "sys \<Rightarrow> action list \<Rightarrow> sys \<Rightarrow> bool" where
  run_done: "run s [] s"
| run_step: "step s a s' \<Longrightarrow> run s' as s'' \<Longrightarrow> run s (a # as) s''"

code_pred run .

subsection \<open>Invariants of the threads\<close>

text \<open>The slot a handle has a counted borrow on, the number of handles with a borrow
  on slot \<open>i\<close>, and the slot the sender is writing outside the mutex.\<close>

definition borrowed_slot :: "Receiver \<times> recv_pc \<Rightarrow> nat option" where
  "borrowed_slot h =
     (case snd h of RIdle \<Rightarrow> None | RAcquired ix \<Rightarrow> Some ix | RHolding \<Rightarrow> index (fst h))"

definition borrowers :: "(Receiver \<times> recv_pc) list \<Rightarrow> nat \<Rightarrow> nat" where
  "borrowers hs i = length (filter (\<lambda>h. borrowed_slot h = Some i) hs)"

definition pc_target :: "sender_pc \<Rightarrow> nat option" where
  "pc_target pc = (case pc of SCopying t \<Rightarrow> Some t | SCopied t \<Rightarrow> Some t | _ \<Rightarrow> None)"

definition write_target :: "sys \<Rightarrow> nat option" where
  "write_target s = pc_target (sender_at s)"

text \<open>The parts of the invariant of a live ring: the pool is large enough for the
  handles; \<^verbatim>\<open>num_borrows\<close> counts the handles slot by slot; a holding receiver's struct
  agrees with the ring; \<^verbatim>\<open>FLAG_CONFLATION\<close> is clear and the sender's slot is borrowed
  by nobody and is neither of the two slots a receiver can be handed.\<close>

definition counts_ok :: "Inner \<Rightarrow> (Receiver \<times> recv_pc) list \<Rightarrow> bool" where
  "counts_ok r hs \<longleftrightarrow>
     3 \<le> num_segments r \<and> unat (num_receivers r) = length hs \<and>
     length hs + 2 \<le> num_segments r"

definition borrows_ok :: "Inner \<Rightarrow> (Receiver \<times> recv_pc) list \<Rightarrow> bool" where
  "borrows_ok r hs \<longleftrightarrow>
     (\<forall>i < MAX_SEGMENTS. unat (num_borrows r ! i) = borrowers hs i) \<and>
     (\<forall>h \<in> set hs. \<forall>i. borrowed_slot h = Some i \<longrightarrow> i < num_segments r)"

definition holder_ok :: "Inner \<Rightarrow> Receiver \<times> recv_pc \<Rightarrow> bool" where
  "holder_ok r h \<longleftrightarrow>
     (snd h = RHolding \<longrightarrow>
        (\<exists>i. index (fst h) = Some i \<and> data_ptr (fst h) = Some i \<and>
             timestamp (fst h) = Some (timestamps r ! i)))"

definition target_ok :: "Inner \<Rightarrow> sender_pc \<Rightarrow> bool" where
  "target_ok r pc \<longleftrightarrow>
     flags r AND FLAG_CONFLATION = 0 \<and>
     (\<forall>t. pc_target pc = Some t \<longrightarrow>
          t < num_segments r \<and> t \<noteq> last_written_block r \<and>
          t \<noteq> prev_written_block r \<and> num_borrows r ! t = 0)"

definition live_inv :: "Inner \<Rightarrow> sender_pc \<Rightarrow> (Receiver \<times> recv_pc) list \<Rightarrow> bool" where
  "live_inv r pc hs \<longleftrightarrow>
     ring_ok r \<and> counts_ok r hs \<and> borrows_ok r hs \<and>
     (\<forall>h \<in> set hs. holder_ok r h) \<and> target_ok r pc"

definition sys_inv :: "sys \<Rightarrow> bool" where
  "sys_inv s = (case ring s of Freed \<Rightarrow> True | Live r \<Rightarrow> live_inv r (sender_at s) (handles s))"

section \<open>Properties\<close>

lemma init_ringq_any_block:
  "init_ringq (blk\<lparr>bufsize := b\<rparr>) = init_ringq (malloc_Inner\<lparr>bufsize := b\<rparr>)"
  by (simp add: init_ringq_def malloc_Inner_def)

lemmas mutex_defs = pthread_mutex_lock_def pthread_mutex_unlock_def

lemmas flag_defs = FLAG_CONFLATION_def FLAG_NO_SENDER_def

lemmas code_defs = NO_RECEIVERS_def SENDER_CLOSED_def MAX_RECEIVERS_def

lemmas fresh_defs = new_ringq_def init_ringq_def malloc_Inner_def new_receiver_struct_def
  MAX_SEGMENTS_def

lemmas send_defs = send_def send_begin_def send_copy_def send_end_def get_free_writer_def
  free_writer_loop.simps

lemmas recv_defs = start_recv_def start_recv_lock_def start_recv_read_def end_recv_def
  get_recv_index_def payload_seen_def

subsection \<open>The scan of \<^verbatim>\<open>_get_free_writer\<close>\<close>

lemma free_writer_loop_scan:
  "(j \<le> free_writer_loop r j \<and> free_writer_loop r j < num_segments r \<and>
      free_writer_loop r j \<noteq> last_written_block r \<and>
      num_borrows r ! free_writer_loop r j = 0 \<and>
      (\<forall>k. j \<le> k \<and> k < free_writer_loop r j \<and> k \<noteq> last_written_block r
            \<longrightarrow> num_borrows r ! k \<noteq> 0))
   \<or> (free_writer_loop r j = last_written_block r \<and>
      (\<forall>k. j \<le> k \<and> k < num_segments r \<and> k \<noteq> last_written_block r
            \<longrightarrow> num_borrows r ! k \<noteq> 0))"
proof (induction r j rule: free_writer_loop.induct)
  case (1 r i)
  show ?case
  proof (cases "i < num_segments r")
    case False
    then show ?thesis by (auto simp: free_writer_loop.simps [of r i])
  next
    case inside: True
    show ?thesis
    proof (cases "i = last_written_block r")
      case True
      have eq: "free_writer_loop r i = free_writer_loop r (i + 1)"
        using inside True by (subst free_writer_loop.simps) simp
      have later: "i + 1 \<le> k" if "i \<le> k" "k \<noteq> last_written_block r" for k
        using True that by (cases "k = i") auto
      from 1(1) [OF inside True] show ?thesis
        unfolding eq using later by (elim disjE conjE) (auto dest: Suc_leD)
    next
      case notlast: False
      show ?thesis
      proof (cases "num_borrows r ! i = 0")
        case True
        with inside notlast show ?thesis
          by (auto simp: free_writer_loop.simps [of r i])
      next
        case False
        have eq: "free_writer_loop r i = free_writer_loop r (i + 1)"
          using inside notlast False by (subst free_writer_loop.simps) simp
        have later: "i + 1 \<le> k" if "i \<le> k" "num_borrows r ! k = 0" for k
          using False that by (cases "k = i") auto
        from 1(2) [OF inside notlast False] show ?thesis
          unfolding eq using later by (elim disjE conjE) (auto dest: Suc_leD)
      qed
    qed
  qed
qed

text \<open>
  Claim C7. \<^verbatim>\<open>_get_free_writer\<close> scans the slots \<open>0\<close> up to \<^verbatim>\<open>num_segments\<close> in increasing
  order and skips \<^verbatim>\<open>last_written_block\<close>: it returns the first other slot whose
  \<^verbatim>\<open>num_borrows\<close> is 0 (every other slot before it is borrowed), and when every other
  slot is borrowed it returns \<^verbatim>\<open>last_written_block\<close>. The two hypotheses are what
  keeps the reads of \<^verbatim>\<open>num_borrows\<close> inside the array.
\<close>

theorem get_free_writer_first_free:
  assumes "length (num_borrows r) = MAX_SEGMENTS" and "num_segments r \<le> MAX_SEGMENTS"
  shows "(get_free_writer r < num_segments r \<and>
          get_free_writer r \<noteq> last_written_block r \<and>
          num_borrows r ! get_free_writer r = 0 \<and>
          (\<forall>k < get_free_writer r.
              k \<noteq> last_written_block r \<longrightarrow> num_borrows r ! k \<noteq> 0))
       \<or> (get_free_writer r = last_written_block r \<and>
          (\<forall>k < num_segments r.
              k \<noteq> last_written_block r \<longrightarrow> num_borrows r ! k \<noteq> 0))"
  using free_writer_loop_scan [of 0 r] unfolding get_free_writer_def by auto

theorem get_free_writer_first_free_witness:
  "length (num_borrows ((fst (new_ringq 4))\<lparr>num_borrows := (replicate 16 0)[1 := 1]\<rparr>))
     = MAX_SEGMENTS \<and>
   num_segments ((fst (new_ringq 4))\<lparr>num_borrows := (replicate 16 0)[1 := 1]\<rparr>)
     \<le> MAX_SEGMENTS \<and>
   get_free_writer ((fst (new_ringq 4))\<lparr>num_borrows := (replicate 16 0)[1 := 1]\<rparr>) = 2 \<and>
   num_borrows ((fst (new_ringq 4))\<lparr>num_borrows := (replicate 16 0)[1 := 1]\<rparr>) ! 2 = 0 \<and>
   num_borrows ((fst (new_ringq 4))\<lparr>num_borrows := (replicate 16 0)[1 := 1]\<rparr>) ! 1 \<noteq> 0"
proof -
  let ?r = "(fst (new_ringq 4))\<lparr>num_borrows := (replicate 16 0)[1 := 1]\<rparr>"
  have len: "length (num_borrows ?r) = MAX_SEGMENTS"
    by (simp add: fresh_defs)
  have n: "num_segments ?r \<le> MAX_SEGMENTS"
    by (simp add: fresh_defs)
  have val: "get_free_writer ?r = 2"
    by code_simp
  have last: "last_written_block ?r = 0"
    by (simp add: fresh_defs)
  have "num_borrows ?r ! 2 = 0 \<and> num_borrows ?r ! 1 \<noteq> 0"
    using get_free_writer_first_free [OF len n] unfolding val last by auto
  with len n val show ?thesis by simp
qed

subsection \<open>A fresh ring\<close>

text \<open>
  Claim C10. On the ring \<^verbatim>\<open>new_ringq\<close> returns, before any \<^verbatim>\<open>send\<close>, \<^verbatim>\<open>start_recv\<close>
  returns 0: it counts a borrow on slot 1, which is \<^verbatim>\<open>prev_written_block\<close>, records
  timestamp 0, and the buffer of that slot is as \<^verbatim>\<open>malloc\<close> left it.
\<close>

theorem start_recv_on_fresh_ring:
  "start_recv (fst (new_ringq b)) (receiver (snd (new_ringq b))) =
     Inr (0, (fst (new_ringq b))\<lparr>num_borrows := (replicate MAX_SEGMENTS 0)[1 := 1]\<rparr>,
          \<lparr>r_bufsize = b, index = Some 1, data_ptr = Some 1, timestamp = Some 0\<rparr>) \<and>
   prev_written_block (fst (new_ringq b)) = 1 \<and>
   segments (fst (new_ringq b)) ! 1 = Fresh \<and>
   payload_seen ((fst (new_ringq b))\<lparr>num_borrows := (replicate MAX_SEGMENTS 0)[1 := 1]\<rparr>)
     \<lparr>r_bufsize = b, index = Some 1, data_ptr = Some 1, timestamp = Some 0\<rparr> = Some Fresh"
  by (simp add: fresh_defs recv_defs mutex_defs flag_defs)

subsection \<open>The slot \<^verbatim>\<open>start_recv\<close> borrows\<close>

text \<open>
  Claim C2, evaluated on the code. After one \<^verbatim>\<open>send\<close> on a fresh ring
  \<^verbatim>\<open>FLAG_CONFLATION\<close> is clear, \<^verbatim>\<open>last_written_block\<close> is 1 and \<^verbatim>\<open>prev_written_block\<close> is 0:
  \<^verbatim>\<open>_get_recv_index\<close> returns 0 and \<^verbatim>\<open>start_recv\<close> counts its borrow on slot 0, the
  slot written before the last. With \<^verbatim>\<open>FLAG_CONFLATION\<close> set on the same ring it
  returns 1, the slot written last.
\<close>

theorem get_recv_index_after_one_send:
  "\<exists>r1 r2 rcv.
     send (fst (new_ringq 4)) [0xDE, 0xAD, 0xBE, 0xEF] 100 = Inr (0, r1) \<and>
     flags r1 AND FLAG_CONFLATION = 0 \<and>
     last_written_block r1 = 1 \<and> prev_written_block r1 = 0 \<and>
     get_recv_index r1 = 0 \<and>
     start_recv r1 (receiver (snd (new_ringq 4))) = Inr (0, r2, rcv) \<and>
     num_borrows r2 ! 0 = 1 \<and> num_borrows r2 ! 1 = 0 \<and> index rcv = Some 0 \<and>
     get_recv_index (r1\<lparr>flags := flags r1 OR FLAG_CONFLATION\<rparr>) = 1"
  by (simp add: fresh_defs send_defs recv_defs mutex_defs flag_defs code_defs)

text \<open>
  Claim C3, evaluated on the code. On the ring of \<^verbatim>\<open>new_ringq(4)\<close>, \<^verbatim>\<open>send\<close> of
  \<^verbatim>\<open>DE AD BE EF\<close> with timestamp 100 returns 0 and writes slot 1. The \<^verbatim>\<open>start_recv\<close> that
  follows returns 0 and borrows slot 0: the receiver sees a buffer nothing has
  written and timestamp 0. \<^verbatim>\<open>end_recv\<close> returns 0.
\<close>

theorem send_then_recv_scenario:
  "\<exists>r1 r2 rcv r3.
     send (fst (new_ringq 4)) [0xDE, 0xAD, 0xBE, 0xEF] 100 = Inr (0, r1) \<and>
     segments r1 ! 1 = Payload [0xDE, 0xAD, 0xBE, 0xEF] \<and> timestamps r1 ! 1 = 100 \<and>
     start_recv r1 (receiver (snd (new_ringq 4))) = Inr (0, r2, rcv) \<and>
     index rcv = Some 0 \<and> payload_seen r2 rcv = Some Fresh \<and> timestamp rcv = Some 0 \<and>
     end_recv r2 rcv = Inr (0, r3)"
  by (simp add: fresh_defs send_defs recv_defs mutex_defs flag_defs code_defs)

subsection \<open>\<^verbatim>\<open>send\<close> without receivers\<close>

text \<open>
  Claim C4, evaluated on the code. Called with the mutex free and \<^verbatim>\<open>num_receivers\<close>
  0, \<^verbatim>\<open>send\<close> returns \<^verbatim>\<open>NO_RECEIVERS\<close> and the ring it leaves differs from the one it
  found in the mutex, which is held.
\<close>

theorem send_no_receivers_keeps_lock:
  assumes "\<not> lock r" and "num_receivers r = 0"
  shows "send r data ts = Inr (NO_RECEIVERS, r\<lparr>lock := True\<rparr>)"
  using assms by (simp add: send_def send_begin_def pthread_mutex_lock_def)

theorem send_no_receivers_keeps_lock_witness:
  "\<not> lock ((fst (new_ringq 4))\<lparr>num_receivers := 0\<rparr>) \<and>
   num_receivers ((fst (new_ringq 4))\<lparr>num_receivers := 0\<rparr>) = 0 \<and>
   send ((fst (new_ringq 4))\<lparr>num_receivers := 0\<rparr>) [1, 2, 3, 4] 7 =
     Inr (1, (fst (new_ringq 4))\<lparr>num_receivers := 0, lock := True\<rparr>) \<and>
   (fst (new_ringq 4))\<lparr>num_receivers := 0, lock := True\<rparr>
     \<noteq> (fst (new_ringq 4))\<lparr>num_receivers := 0\<rparr>"
proof -
  let ?r = "(fst (new_ringq 4))\<lparr>num_receivers := 0\<rparr>"
  have free: "\<not> lock ?r" and none: "num_receivers ?r = 0"
    by (simp_all add: fresh_defs)
  have "?r\<lparr>lock := True\<rparr> \<noteq> ?r"
  proof
    assume "?r\<lparr>lock := True\<rparr> = ?r"
    then have "lock (?r\<lparr>lock := True\<rparr>) = lock ?r" by simp
    with free show False by simp
  qed
  with free none send_no_receivers_keeps_lock [OF free none, of "[1, 2, 3, 4]" 7]
  show ?thesis by (simp add: NO_RECEIVERS_def)
qed

text \<open>
  Claim C6, evaluated on the code with the receiver's drop modelled from the spec.
  \<open>drop_recv\<close> on the ring of \<^verbatim>\<open>new_ringq\<close> leaves \<^verbatim>\<open>num_receivers\<close> 0 and the mutex free.
  The first \<^verbatim>\<open>send\<close> after it returns \<^verbatim>\<open>NO_RECEIVERS\<close> and leaves the mutex held; the
  second \<^verbatim>\<open>send\<close> blocks on the mutex and returns nothing. After \<^verbatim>\<open>free_sender\<close> on the
  ring of \<^verbatim>\<open>new_ringq\<close>, \<open>drop_recv\<close> frees the ring.
\<close>

theorem sends_after_drop_recv:
  "drop_recv (fst (new_ringq b)) = Inr (Live ((fst (new_ringq b))\<lparr>num_receivers := 0\<rparr>)) \<and>
   send ((fst (new_ringq b))\<lparr>num_receivers := 0\<rparr>) data ts =
     Inr (NO_RECEIVERS, (fst (new_ringq b))\<lparr>num_receivers := 0, lock := True\<rparr>) \<and>
   send ((fst (new_ringq b))\<lparr>num_receivers := 0, lock := True\<rparr>) data' ts' = Inl Blocked \<and>
   free_sender (fst (new_ringq b)) =
     Inr (Live ((fst (new_ringq b))\<lparr>flags := FLAG_NO_SENDER\<rparr>)) \<and>
   drop_recv ((fst (new_ringq b))\<lparr>flags := FLAG_NO_SENDER\<rparr>) = Inr Freed"
  by (simp add: fresh_defs drop_recv_def free_sender_def free_ringq_def send_def
        send_begin_def mutex_defs flag_defs)

subsection \<open>Three sends past a held borrow\<close>

text \<open>
  Claim C5 as stated fails on the code. On the ring of \<^verbatim>\<open>new_ringq(4)\<close> with the borrow
  of one \<^verbatim>\<open>start_recv\<close> outstanding, the three sends write slots 2, 0 and 2: the second
  and the third send do not write the slot of the send before, and none of the three
  sets \<^verbatim>\<open>FLAG_CONFLATION\<close>.
\<close>

theorem three_sends_counterexample:
  "\<exists>r0 rcv r1 r2 r3.
     start_recv (fst (new_ringq 4)) (receiver (snd (new_ringq 4))) = Inr (0, r0, rcv) \<and>
     send r0 [1, 1, 1, 1] 10 = Inr (0, r1) \<and>
     send r1 [2, 2, 2, 2] 11 = Inr (0, r2) \<and>
     send r2 [3, 3, 3, 3] 12 = Inr (0, r3) \<and>
     send_target r0 = Some (2, False) \<and> last_written_block r1 = 2 \<and>
     send_target r1 = Some (0, False) \<and> last_written_block r2 = 0 \<and>
     send_target r2 = Some (2, False) \<and> last_written_block r3 = 2"
  by (simp add: fresh_defs send_defs recv_defs mutex_defs flag_defs code_defs send_target_def)

text \<open>
  Claim C5, amended. On the ring of \<^verbatim>\<open>new_ringq\<close>, whatever the buffer size and the
  payloads, with the borrow of one \<^verbatim>\<open>start_recv\<close> outstanding on slot \<open>ix\<close>, three sends
  in a row each return 0; none of them sets \<^verbatim>\<open>FLAG_CONFLATION\<close>, each writes a slot
  other than \<open>ix\<close>, and the second and the third write a slot other than the slot of
  the send before. The borrowed buffer is the same after the three sends.
\<close>

theorem three_sends_never_conflate:
  "\<exists>r0 rcv ix r1 r2 r3 t1 t2 t3.
     start_recv (fst (new_ringq b)) (receiver (snd (new_ringq b))) = Inr (0, r0, rcv) \<and>
     index rcv = Some ix \<and> num_borrows r0 ! ix = 1 \<and>
     send r0 d1 10 = Inr (0, r1) \<and> send r1 d2 11 = Inr (0, r2) \<and>
     send r2 d3 12 = Inr (0, r3) \<and>
     send_target r0 = Some (t1, False) \<and> last_written_block r1 = t1 \<and>
     send_target r1 = Some (t2, False) \<and> last_written_block r2 = t2 \<and>
     send_target r2 = Some (t3, False) \<and> last_written_block r3 = t3 \<and>
     t2 \<noteq> t1 \<and> t3 \<noteq> t2 \<and> t1 \<noteq> ix \<and> t2 \<noteq> ix \<and> t3 \<noteq> ix \<and>
     payload_seen r3 rcv = payload_seen r0 rcv"
  by (simp add: fresh_defs send_defs recv_defs mutex_defs flag_defs code_defs send_target_def)

subsection \<open>The cap on clones\<close>

lemma new_receiver_full:
  "\<not> lock r \<Longrightarrow> num_segments r = MAX_SEGMENTS \<Longrightarrow>
   new_receiver r rcv = Inr (new_receiver_struct (r_bufsize rcv), MAX_RECEIVERS, r)"
  by (simp add: new_receiver_def new_segment_def mutex_defs MAX_RECEIVERS_def)

lemma new_receiver_room:
  "\<not> lock r \<Longrightarrow> num_segments r \<noteq> MAX_SEGMENTS \<Longrightarrow>
   new_receiver r rcv =
     Inr (new_receiver_struct (r_bufsize rcv), 0,
          r\<lparr> segments := (segments r)[num_segments r := Fresh],
             num_segments := num_segments r + 1,
             num_receivers := num_receivers r + 1 \<rparr>)"
  by (simp add: new_receiver_def new_segment_def mutex_defs MAX_RECEIVERS_def)

lemma clones_room:
  "\<not> lock r \<Longrightarrow> num_segments r + n \<le> MAX_SEGMENTS \<Longrightarrow>
   \<exists>r'. clones n r rcv = Inr (replicate n 0, r') \<and> \<not> lock r' \<and>
        num_segments r' = num_segments r + n \<and>
        num_receivers r' = num_receivers r + of_nat n"
proof (induction n arbitrary: r rcv)
  case 0
  then show ?case by simp
next
  case (Suc n)
  let ?r1 = "r\<lparr> segments := (segments r)[num_segments r := Fresh],
             num_segments := num_segments r + 1,
             num_receivers := num_receivers r + 1 \<rparr>"
  from Suc.prems have room: "num_segments r \<noteq> MAX_SEGMENTS" by simp
  have "\<not> lock ?r1" "num_segments ?r1 + n \<le> MAX_SEGMENTS"
    using Suc.prems by simp_all
  from Suc.IH [OF this, of "new_receiver_struct (r_bufsize rcv)"]
  obtain r' where r': "clones n ?r1 (new_receiver_struct (r_bufsize rcv)) = Inr (replicate n 0, r')"
      "\<not> lock r'" "num_segments r' = num_segments ?r1 + n"
      "num_receivers r' = num_receivers ?r1 + of_nat n"
    by blast
  show ?case
    using r' by (simp add: new_receiver_room [OF Suc.prems(1) room])
qed

lemma clones_snoc:
  "clones n r rcv = Inr (errs, r') \<Longrightarrow> \<not> lock r' \<Longrightarrow> num_segments r' = MAX_SEGMENTS \<Longrightarrow>
   clones (Suc n) r rcv = Inr (errs @ [MAX_RECEIVERS], r')"
proof (induction n arbitrary: r rcv errs)
  case 0
  then show ?case by (simp add: new_receiver_full)
next
  case (Suc n)
  from Suc.prems(1) obtain rcv1 e1 r1 es where
    a: "new_receiver r rcv = Inr (rcv1, e1, r1)" and b: "clones n r1 rcv1 = Inr (es, r')"
    and c: "errs = e1 # es"
    by (auto split: sum.splits prod.splits)
  from Suc.IH [OF b Suc.prems(2,3)] have "clones (Suc n) r1 rcv1 = Inr (es @ [MAX_RECEIVERS], r')" .
  then show ?case using a c by (simp del: clones.simps add: clones.simps(2) [of "Suc n"])
qed

text \<open>
  Claim C9. \<^verbatim>\<open>new_receiver\<close> on a ring with the mutex free succeeds (error 0) exactly
  when \<^verbatim>\<open>num_segments\<close> is below \<^verbatim>\<open>MAX_SEGMENTS\<close>. From the ring of \<^verbatim>\<open>new_ringq\<close> every
  run of up to thirteen clones succeeds throughout and leaves \<open>3 + n\<close> segments and
  \<open>1 + n\<close> receivers; after thirteen there are 16 segments and 14 receivers, and the
  fourteenth call stores \<^verbatim>\<open>MAX_RECEIVERS\<close> and leaves the ring as the thirteenth left it.
\<close>

theorem clone_cap:
  "(\<forall>q h. \<not> lock q \<and> num_segments q \<le> MAX_SEGMENTS \<longrightarrow>
      (\<exists>h' e q'. new_receiver q h = Inr (h', e, q') \<and>
                   (e = 0 \<longleftrightarrow> num_segments q < MAX_SEGMENTS))) \<and>
   (\<forall>n \<le> 13. \<exists>r. clones n (fst (new_ringq b)) rcv = Inr (replicate n 0, r) \<and>
      num_segments r = 3 + n \<and> unat (num_receivers r) = 1 + n) \<and>
   (\<exists>r. clones 13 (fst (new_ringq b)) rcv = Inr (replicate 13 0, r) \<and>
      num_segments r = 16 \<and> num_receivers r = 14 \<and>
      clones 14 (fst (new_ringq b)) rcv = Inr (replicate 13 0 @ [MAX_RECEIVERS], r))"
proof (intro conjI allI impI)
  fix q :: Inner and h :: Receiver
  assume "\<not> lock q \<and> num_segments q \<le> MAX_SEGMENTS"
  then show "\<exists>h' e q'. new_receiver q h = Inr (h', e, q') \<and>
                   (e = 0 \<longleftrightarrow> num_segments q < MAX_SEGMENTS)"
    by (cases "num_segments q = MAX_SEGMENTS")
       (auto simp: new_receiver_full new_receiver_room MAX_RECEIVERS_def)
next
  fix n :: nat assume n: "n \<le> 13"
  have f: "\<not> lock (fst (new_ringq b))" "num_segments (fst (new_ringq b)) = 3"
      "num_receivers (fst (new_ringq b)) = 1"
    by (simp_all add: fresh_defs)
  from n have "num_segments (fst (new_ringq b)) + n \<le> MAX_SEGMENTS"
    by (simp add: f MAX_SEGMENTS_def)
  from clones_room [OF f(1) this, of rcv] obtain r where
    r: "clones n (fst (new_ringq b)) rcv = Inr (replicate n 0, r)"
       "num_segments r = 3 + n" "num_receivers r = 1 + of_nat n"
    by (auto simp: f)
  have "unat (1 + of_nat n :: u8) = 1 + n"
    using n by (simp add: unat_word_ariths unat_of_nat)
  with r show "\<exists>r. clones n (fst (new_ringq b)) rcv = Inr (replicate n 0, r) \<and>
      num_segments r = 3 + n \<and> unat (num_receivers r) = 1 + n"
    by auto
next
  have f: "\<not> lock (fst (new_ringq b))" "num_segments (fst (new_ringq b)) = 3"
      "num_receivers (fst (new_ringq b)) = 1"
    by (simp_all add: fresh_defs)
  have "num_segments (fst (new_ringq b)) + 13 \<le> MAX_SEGMENTS"
    by (simp add: f MAX_SEGMENTS_def)
  from clones_room [OF f(1) this, of rcv] obtain r where
    r: "clones 13 (fst (new_ringq b)) rcv = Inr (replicate 13 0, r)" "\<not> lock r"
       "num_segments r = 16" "num_receivers r = 14"
    by (auto simp: f)
  from clones_snoc [OF r(1,2)] r(3)
  have "clones (Suc 13) (fst (new_ringq b)) rcv = Inr (replicate 13 0 @ [MAX_RECEIVERS], r)"
    by (simp add: MAX_SEGMENTS_def)
  moreover have "(14::nat) = Suc 13"
    by simp
  ultimately
  have "clones 14 (fst (new_ringq b)) rcv = Inr (replicate 13 0 @ [MAX_RECEIVERS], r)"
    by (simp only:)
  with r show "\<exists>r. clones 13 (fst (new_ringq b)) rcv = Inr (replicate 13 0, r) \<and>
      num_segments r = 16 \<and> num_receivers r = 14 \<and>
      clones 14 (fst (new_ringq b)) rcv = Inr (replicate 13 0 @ [MAX_RECEIVERS], r)"
    by blast
qed

theorem clone_cap_witness:
  "(13::nat) \<le> 13 \<and>
   (\<exists>r. clones 13 (fst (new_ringq 4)) (receiver (snd (new_ringq 4))) = Inr (replicate 13 0, r) \<and>
        num_segments r = 3 + 13 \<and> unat (num_receivers r) = 1 + 13)"
proof -
  have h: "(13::nat) \<le> 13" by simp
  from clone_cap [of 4 "receiver (snd (new_ringq 4))"] have
    "\<forall>n \<le> 13. \<exists>r. clones n (fst (new_ringq 4)) (receiver (snd (new_ringq 4)))
        = Inr (replicate n 0, r) \<and>
      num_segments r = 3 + n \<and> unat (num_receivers r) = 1 + n"
    by blast
  with h show ?thesis by blast
qed

subsection \<open>Counting borrows\<close>

lemma length_filter_update:
  "k < length xs \<Longrightarrow>
   length (filter P (xs[k := y])) + (if P (xs ! k) then 1 else 0) =
   length (filter P xs) + (if P y then 1 else 0)"
proof (induction xs arbitrary: k)
  case Nil
  then show ?case by simp
next
  case (Cons x xs)
  show ?case
  proof (cases k)
    case 0
    then show ?thesis by simp
  next
    case (Suc j)
    with Cons.prems have "j < length xs" by simp
    from Cons.IH [OF this] Suc show ?thesis by simp
  qed
qed

lemma length_filter_remove:
  assumes "k < length xs"
  shows "length (filter P (take k xs @ drop (Suc k) xs)) + (if P (xs ! k) then 1 else 0) =
         length (filter P xs)"
proof -
  have "xs = take k xs @ xs ! k # drop (Suc k) xs"
    using assms by (rule id_take_nth_drop)
  then have "length (filter P xs) = length (filter P (take k xs @ xs ! k # drop (Suc k) xs))"
    by simp
  then show ?thesis by simp
qed

lemma borrowers_update:
  "k < length hs \<Longrightarrow>
   borrowers (hs[k := h]) i + (if borrowed_slot (hs ! k) = Some i then 1 else 0) =
   borrowers hs i + (if borrowed_slot h = Some i then 1 else 0)"
  unfolding borrowers_def by (rule length_filter_update)

lemma borrowers_remove:
  "k < length hs \<Longrightarrow>
   borrowers (take k hs @ drop (Suc k) hs) i
     + (if borrowed_slot (hs ! k) = Some i then 1 else 0) = borrowers hs i"
  unfolding borrowers_def by (rule length_filter_remove)

lemma borrowers_append:
  "borrowers (hs @ [h]) i = borrowers hs i + (if borrowed_slot h = Some i then 1 else 0)"
  by (simp add: borrowers_def)

lemma borrowers_le: "borrowers hs i \<le> length hs"
  by (simp add: borrowers_def)

lemma borrowers_pos:
  "h \<in> set hs \<Longrightarrow> borrowed_slot h = Some i \<Longrightarrow> 0 < borrowers hs i"
  unfolding borrowers_def by (simp add: filter_empty_conv) blast

lemma borrowers_witness:
  "0 < borrowers hs i \<Longrightarrow> \<exists>h \<in> set hs. borrowed_slot h = Some i"
  unfolding borrowers_def by (simp add: filter_empty_conv)

subsection \<open>A free slot other than the last written exists\<close>

lemma free_slot_exists:
  assumes b: "borrows_ok r hs" and c: "counts_ok r hs" and ok: "ring_ok r"
  shows "\<exists>i < num_segments r. i \<noteq> last_written_block r \<and> num_borrows r ! i = 0"
proof (rule ccontr)
  assume "\<not> ?thesis"
  then have all: "\<And>i. i < num_segments r \<Longrightarrow> i \<noteq> last_written_block r \<Longrightarrow> num_borrows r ! i \<noteq> 0"
    by blast
  let ?B = "{0..<num_segments r} - {last_written_block r}"
  let ?f = "\<lambda>h. the (borrowed_slot h)"
  have "?B \<subseteq> ?f ` set hs"
  proof
    fix i assume i: "i \<in> ?B"
    then have "num_borrows r ! i \<noteq> 0" using all by simp
    moreover have "i < MAX_SEGMENTS" using i ok by (simp add: ring_ok_def)
    ultimately have "0 < borrowers hs i"
      using b by (metis borrows_ok_def unat_gt_0)
    then obtain h where "h \<in> set hs" "borrowed_slot h = Some i"
      using borrowers_witness by blast
    then show "i \<in> ?f ` set hs" by force
  qed
  then have "card ?B \<le> card (?f ` set hs)"
    by (simp add: card_mono)
  also have "\<dots> \<le> card (set hs)" by (simp add: card_image_le)
  also have "\<dots> \<le> length hs" by (rule card_length)
  finally have "card ?B \<le> length hs" .
  moreover have "num_segments r - 1 \<le> card ?B"
    by (simp add: card_Diff_singleton_if)
  ultimately show False using c unfolding counts_ok_def by linarith
qed

lemma free_writer_loop_lock [simp]:
  "free_writer_loop (r\<lparr>lock := b\<rparr>) i = free_writer_loop r i"
proof (induction r i rule: free_writer_loop.induct)
  case (1 r i)
  then show ?case
    by (simp add: free_writer_loop.simps [of "r\<lparr>lock := b\<rparr>" i]
          free_writer_loop.simps [of r i])
qed

lemma get_free_writer_free:
  assumes "borrows_ok r hs" "counts_ok r hs" "ring_ok r"
  shows "get_free_writer r < num_segments r \<and> get_free_writer r \<noteq> last_written_block r \<and>
         num_borrows r ! get_free_writer r = 0"
  using free_writer_loop_scan [of 0 r] free_slot_exists [OF assms]
  unfolding get_free_writer_def by auto

subsection \<open>Flags and counters\<close>

lemma flag_after_clear: "(f AND NOT FLAG_CONFLATION) AND FLAG_CONFLATION = (0::u8)"
  by (simp add: bit_eq_iff bit_simps)

lemma flag_after_no_sender: "(f OR FLAG_NO_SENDER) AND FLAG_CONFLATION = f AND FLAG_CONFLATION"
  unfolding flag_defs by (auto simp add: bit_eq_iff bit_simps)

lemma unat_inc: "unat (x :: u8) < 255 \<Longrightarrow> unat (x + 1) = unat x + 1"
  by (simp add: unat_word_ariths)

lemma unat_dec: "(x :: u8) \<noteq> 0 \<Longrightarrow> unat (x - 1) = unat x - 1"
  by (rule unat_minus_one)

subsection \<open>What each critical section does to the ring\<close>

lemma send_begin_Returned:
  "send_begin r = Inr (Returned ret, r1) \<Longrightarrow>
   \<not> lock r \<and> num_receivers r = 0 \<and> ret = NO_RECEIVERS \<and> r1 = r\<lparr>lock := True\<rparr>"
  by (auto simp: send_begin_def mutex_defs Let_def split: if_splits)

lemma send_begin_Picked:
  "send_begin r = Inr (Picked fw, r1) \<Longrightarrow>
   \<not> lock r \<and> num_receivers r \<noteq> 0 \<and> fw = get_free_writer r \<and>
   r1 = (if fw = last_written_block r
         then r\<lparr>flags := flags r OR FLAG_CONFLATION, lock := False\<rparr>
         else r\<lparr>prev_written_block := last_written_block r, lock := False\<rparr>)"
  by (auto simp: send_begin_def mutex_defs Let_def get_free_writer_def split: if_splits)

lemma send_end_Inr:
  "send_end r fw = Inr r1 \<Longrightarrow>
   \<not> lock r \<and>
   r1 = r\<lparr>last_written_block := fw, flags := flags r AND NOT FLAG_CONFLATION, lock := False\<rparr>"
  by (auto simp: send_end_def mutex_defs split: if_splits)

lemma free_sender_Inr:
  "free_sender r = Inr st \<Longrightarrow>
   \<not> lock r \<and>
   (if num_receivers r = 0 then st = Freed
    else st = Live (r\<lparr>flags := flags r OR FLAG_NO_SENDER, lock := False\<rparr>))"
  by (auto simp: free_sender_def free_ringq_def mutex_defs Let_def split: if_splits)

lemma start_recv_lock_Returned:
  "start_recv_lock r = Inr (Returned ret, r1) \<Longrightarrow> \<not> lock r \<and> r1 = r\<lparr>lock := False\<rparr>"
  by (auto simp: start_recv_lock_def mutex_defs Let_def split: if_splits)

lemma start_recv_lock_Picked:
  "start_recv_lock r = Inr (Picked ix, r1) \<Longrightarrow>
   \<not> lock r \<and> flags r AND FLAG_NO_SENDER = 0 \<and> ix = get_recv_index r \<and>
   r1 = r\<lparr>num_borrows := (num_borrows r)[ix := num_borrows r ! ix + 1], lock := False\<rparr>"
  by (auto simp: start_recv_lock_def mutex_defs Let_def get_recv_index_def split: if_splits)

lemma end_recv_Inr:
  "end_recv r rcv = Inr (ret, r1) \<Longrightarrow>
   \<not> lock r \<and> ret = 0 \<and>
   (\<exists>ix. index rcv = Some ix \<and>
         r1 = r\<lparr>num_borrows := (num_borrows r)[ix := num_borrows r ! ix - 1], lock := False\<rparr>)"
  by (auto simp: end_recv_def mutex_defs split: if_splits option.splits)

lemma new_receiver_Inr:
  "new_receiver r rcv = Inr (rcv', err, r1) \<Longrightarrow>
   \<not> lock r \<and> rcv' = new_receiver_struct (r_bufsize rcv) \<and>
   (if num_segments r = MAX_SEGMENTS then err = MAX_RECEIVERS \<and> r1 = r\<lparr>lock := False\<rparr>
    else err = 0 \<and>
         r1 = r\<lparr>segments := (segments r)[num_segments r := Fresh],
                num_segments := num_segments r + 1,
                num_receivers := num_receivers r + 1, lock := False\<rparr>)"
  by (auto simp: new_receiver_def new_segment_def mutex_defs MAX_RECEIVERS_def split: if_splits)

lemma drop_recv_Inr:
  "drop_recv r = Inr st \<Longrightarrow>
   \<not> lock r \<and>
   (st = Freed \<and> num_receivers r - 1 = 0 \<or>
    st = Live (r\<lparr>num_receivers := num_receivers r - 1, lock := False\<rparr>))"
  by (auto simp: drop_recv_def free_ringq_def mutex_defs Let_def split: if_splits)

lemma unlocked_same [simp]: "\<not> lock r \<Longrightarrow> r\<lparr>lock := False\<rparr> = r"
  by simp

subsection \<open>Every step keeps the invariant\<close>

lemma live_invD:
  "live_inv r pc hs \<Longrightarrow> ring_ok r" "live_inv r pc hs \<Longrightarrow> counts_ok r hs"
  "live_inv r pc hs \<Longrightarrow> borrows_ok r hs" "live_inv r pc hs \<Longrightarrow> h \<in> set hs \<Longrightarrow> holder_ok r h"
  "live_inv r pc hs \<Longrightarrow> target_ok r pc"
  by (simp_all add: live_inv_def)

lemma few_handles:
  "ring_ok r \<Longrightarrow> counts_ok r hs \<Longrightarrow> length hs \<le> 14"
  by (simp add: ring_ok_def counts_ok_def MAX_SEGMENTS_def)

lemma borrowed_in_range:
  "ring_ok r \<Longrightarrow> borrows_ok r hs \<Longrightarrow> h \<in> set hs \<Longrightarrow> borrowed_slot h = Some i \<Longrightarrow>
   i < MAX_SEGMENTS \<and> i < num_segments r \<and> num_borrows r ! i \<noteq> 0"
proof -
  assume ok: "ring_ok r" and b: "borrows_ok r hs" and h: "h \<in> set hs" "borrowed_slot h = Some i"
  from b h have n: "i < num_segments r" by (auto simp: borrows_ok_def)
  with ok have m: "i < MAX_SEGMENTS" by (simp add: ring_ok_def)
  from borrowers_pos [OF h] b m have "0 < unat (num_borrows r ! i)"
    by (simp add: borrows_ok_def)
  then have "num_borrows r ! i \<noteq> 0" by (simp add: unat_gt_0)
  with n m show ?thesis by simp
qed

lemma inv_send_returns:
  assumes "live_inv r pc hs" and "send_begin r = Inr (Returned ret, r1)"
  shows "live_inv r1 pc hs"
  using assms(1) send_begin_Returned [OF assms(2)]
  by (auto simp: live_inv_def ring_ok_def counts_ok_def borrows_ok_def holder_ok_def target_ok_def)

lemma inv_send_picks:
  assumes inv: "live_inv r SIdle hs" and op: "send_begin r = Inr (Picked fw, r1)"
  shows "live_inv r1 (SCopying fw) hs"
proof -
  note p = send_begin_Picked [OF op]
  from get_free_writer_free [OF live_invD(3,2,1) [OF inv]] p
  have fw: "fw < num_segments r" "fw \<noteq> last_written_block r" "num_borrows r ! fw = 0"
    by simp_all
  with p have r1: "r1 = r\<lparr>prev_written_block := last_written_block r\<rparr>"
    by simp
  have "ring_ok r1" using live_invD(1) [OF inv] by (simp add: r1 ring_ok_def)
  moreover have "counts_ok r1 hs" using live_invD(2) [OF inv] by (simp add: r1 counts_ok_def)
  moreover have "borrows_ok r1 hs" using live_invD(3) [OF inv] by (simp add: r1 borrows_ok_def)
  moreover have "\<forall>h \<in> set hs. holder_ok r1 h"
    using live_invD(4) [OF inv] by (simp add: r1 holder_ok_def)
  moreover have "target_ok r1 (SCopying fw)"
    using live_invD(5) [OF inv] fw by (simp add: r1 target_ok_def pc_target_def)
  ultimately show ?thesis by (simp add: live_inv_def)
qed

lemma inv_send_copies:
  assumes inv: "live_inv r (SCopying fw) hs"
  shows "live_inv (send_copy r fw data ts) (SCopied fw) hs"
proof -
  let ?r1 = "send_copy r fw data ts"
  from live_invD(5) [OF inv]
  have fw: "fw < num_segments r" "num_borrows r ! fw = 0" and t: "target_ok r (SCopied fw)"
    by (simp_all add: target_ok_def pc_target_def)
  have "ring_ok ?r1"
  proof -
    note ok = live_invD(1) [OF inv]
    have "segments ?r1 ! i \<noteq> Null" if "i < num_segments r" for i
    proof -
      from that ok have "i < length (segments r)" by (simp add: ring_ok_def)
      then have "segments ?r1 ! i =
          (if i = fw then Payload (take (bufsize r) data) else segments r ! i)"
        by (simp add: send_copy_def nth_list_update)
      moreover from that ok have "segments r ! i \<noteq> Null" by (simp add: ring_ok_def)
      ultimately show ?thesis by simp
    qed
    then show ?thesis using ok by (simp add: ring_ok_def send_copy_def)
  qed
  moreover have "counts_ok ?r1 hs"
    using live_invD(2) [OF inv] by (simp add: send_copy_def counts_ok_def)
  moreover have "borrows_ok ?r1 hs"
    using live_invD(3) [OF inv] by (simp add: send_copy_def borrows_ok_def)
  moreover have "\<forall>h \<in> set hs. holder_ok ?r1 h"
  proof
    fix h assume h: "h \<in> set hs"
    show "holder_ok ?r1 h"
    proof (cases "snd h = RHolding")
      case False
      then show ?thesis by (simp add: holder_ok_def)
    next
      case True
      with live_invD(4) [OF inv h] obtain i where
        i: "index (fst h) = Some i" "data_ptr (fst h) = Some i"
           "timestamp (fst h) = Some (timestamps r ! i)"
        by (auto simp: holder_ok_def)
      from True i have "borrowed_slot h = Some i" by (simp add: borrowed_slot_def)
      from borrowed_in_range [OF live_invD(1,3) [OF inv] h this] fw
      have "i \<noteq> fw" by auto
      with i show ?thesis by (simp add: holder_ok_def send_copy_def)
    qed
  qed
  moreover have "target_ok ?r1 (SCopied fw)"
    using t by (simp add: send_copy_def target_ok_def)
  ultimately show ?thesis by (simp add: live_inv_def)
qed

lemma inv_send_ends:
  assumes inv: "live_inv r (SCopied fw) hs" and op: "send_end r fw = Inr r1"
  shows "live_inv r1 SIdle hs"
proof -
  from send_end_Inr [OF op] have r1:
    "r1 = r\<lparr>last_written_block := fw, flags := flags r AND NOT FLAG_CONFLATION\<rparr>"
    by simp
  from live_invD(5) [OF inv] have fw: "fw < num_segments r"
    by (simp add: target_ok_def pc_target_def)
  have "ring_ok r1" using live_invD(1) [OF inv] fw by (simp add: r1 ring_ok_def)
  moreover have "counts_ok r1 hs" using live_invD(2) [OF inv] by (simp add: r1 counts_ok_def)
  moreover have "borrows_ok r1 hs" using live_invD(3) [OF inv] by (simp add: r1 borrows_ok_def)
  moreover have "\<forall>h \<in> set hs. holder_ok r1 h"
    using live_invD(4) [OF inv] by (simp add: r1 holder_ok_def)
  moreover have "target_ok r1 SIdle"
    by (simp add: r1 target_ok_def pc_target_def flag_after_clear)
  ultimately show ?thesis by (simp add: live_inv_def)
qed

lemma inv_sender_drops:
  assumes inv: "live_inv r SIdle hs" and op: "free_sender r = Inr (Live r1)"
  shows "live_inv r1 SDropped hs"
proof -
  from free_sender_Inr [OF op] have r1: "r1 = r\<lparr>flags := flags r OR FLAG_NO_SENDER\<rparr>"
    by (simp split: if_splits)
  have "ring_ok r1" using live_invD(1) [OF inv] by (simp add: r1 ring_ok_def)
  moreover have "counts_ok r1 hs" using live_invD(2) [OF inv] by (simp add: r1 counts_ok_def)
  moreover have "borrows_ok r1 hs" using live_invD(3) [OF inv] by (simp add: r1 borrows_ok_def)
  moreover have "\<forall>h \<in> set hs. holder_ok r1 h"
    using live_invD(4) [OF inv] by (simp add: r1 holder_ok_def)
  moreover have "target_ok r1 SDropped"
    using live_invD(5) [OF inv]
    by (simp add: r1 target_ok_def pc_target_def flag_after_no_sender)
  ultimately show ?thesis by (simp add: live_inv_def)
qed

lemma inv_recv_closed:
  assumes "live_inv r pc hs" and "start_recv_lock r = Inr (Returned ret, r1)"
  shows "live_inv r1 pc hs"
  using assms(1) start_recv_lock_Returned [OF assms(2)] by simp

lemma inv_recv_acquires:
  assumes inv: "live_inv r pc hs" and k: "k < length hs" "hs ! k = (rcv, RIdle)"
    and op: "start_recv_lock r = Inr (Picked ix, r1)"
  shows "live_inv r1 pc (hs[k := (rcv, RAcquired ix)])"
proof -
  let ?hs = "hs[k := (rcv, RAcquired ix)]"
  note ok = live_invD(1) [OF inv] and c = live_invD(2) [OF inv] and b = live_invD(3) [OF inv]
    and t = live_invD(5) [OF inv]
  note p = start_recv_lock_Picked [OF op]
  from t have "flags r AND FLAG_CONFLATION = 0" by (simp add: target_ok_def)
  with p have ix: "ix = prev_written_block r" by (simp add: get_recv_index_def)
  from p have r1: "r1 = r\<lparr>num_borrows := (num_borrows r)[ix := num_borrows r ! ix + 1]\<rparr>"
    by simp
  from ix ok have ixn: "ix < num_segments r" and ixm: "ix < MAX_SEGMENTS"
    and len: "length (num_borrows r) = MAX_SEGMENTS"
    by (simp_all add: ring_ok_def)
  have old: "borrowed_slot (hs ! k) = None" and new: "borrowed_slot (rcv, RAcquired ix) = Some ix"
    using k by (simp_all add: borrowed_slot_def)
  have cnt: "borrowers ?hs i = borrowers hs i + (if i = ix then 1 else 0)" for i
    using borrowers_update [OF k(1), of "(rcv, RAcquired ix)" i] old new by auto
  have "ring_ok r1" using ok by (simp add: r1 ring_ok_def)
  moreover have "counts_ok r1 ?hs" using c by (simp add: r1 counts_ok_def)
  moreover have "borrows_ok r1 ?hs"
  proof -
    have "unat (num_borrows r1 ! i) = borrowers ?hs i" if i: "i < MAX_SEGMENTS" for i
    proof (cases "i = ix")
      case True
      from b ixm have "unat (num_borrows r ! ix) = borrowers hs ix"
        by (simp add: borrows_ok_def)
      moreover have "borrowers hs ix \<le> 14"
        using borrowers_le [of hs ix] few_handles [OF ok c] by simp
      ultimately have "unat (num_borrows r ! ix + 1) = borrowers hs ix + 1"
        by (simp add: unat_inc)
      with True ixm len show ?thesis by (simp add: r1 cnt)
    next
      case False
      with b i show ?thesis by (simp add: r1 cnt borrows_ok_def)
    qed
    moreover have "i < num_segments r1" if "h \<in> set ?hs" "borrowed_slot h = Some i" for h i
    proof -
      from that(1) have "h = (rcv, RAcquired ix) \<or> h \<in> set hs"
        using set_update_subset_insert [of hs k "(rcv, RAcquired ix)"] by auto
      with that(2) new ixn b show ?thesis by (auto simp: r1 borrows_ok_def)
    qed
    ultimately show ?thesis unfolding borrows_ok_def by blast
  qed
  moreover have "\<forall>h \<in> set ?hs. holder_ok r1 h"
  proof
    fix h assume "h \<in> set ?hs"
    then have "h = (rcv, RAcquired ix) \<or> h \<in> set hs"
      using set_update_subset_insert [of hs k "(rcv, RAcquired ix)"] by auto
    then show "holder_ok r1 h"
    proof
      assume "h = (rcv, RAcquired ix)"
      then show ?thesis by (simp add: holder_ok_def)
    next
      assume "h \<in> set hs"
      from live_invD(4) [OF inv this] show ?thesis by (simp add: r1 holder_ok_def)
    qed
  qed
  moreover have "target_ok r1 pc"
    using t ix by (auto simp: r1 target_ok_def)
  ultimately show ?thesis by (simp add: live_inv_def)
qed

lemma inv_recv_reads:
  assumes inv: "live_inv r pc hs" and k: "k < length hs" "hs ! k = (rcv, RAcquired ix)"
  shows "live_inv r pc (hs[k := (start_recv_read r rcv ix, RHolding)])"
proof -
  let ?h = "(start_recv_read r rcv ix, RHolding)"
  let ?hs = "hs[k := ?h]"
  note ok = live_invD(1) [OF inv] and c = live_invD(2) [OF inv] and b = live_invD(3) [OF inv]
  have old: "borrowed_slot (hs ! k) = Some ix" and new: "borrowed_slot ?h = Some ix"
    using k by (simp_all add: borrowed_slot_def start_recv_read_def)
  have cnt: "borrowers ?hs i = borrowers hs i" for i
    using borrowers_update [OF k(1), of ?h i] old new by auto
  have mem: "hs ! k \<in> set hs" using k(1) by (rule nth_mem)
  have sub: "h = ?h \<or> h \<in> set hs" if "h \<in> set ?hs" for h
    using that set_update_subset_insert [of hs k ?h] by auto
  have "counts_ok r ?hs" using c by (simp add: counts_ok_def)
  moreover have "borrows_ok r ?hs"
  proof -
    have "i < num_segments r" if "h \<in> set ?hs" "borrowed_slot h = Some i" for h i
      using sub [OF that(1)] that(2) new old mem b by (auto simp: borrows_ok_def)
    then show ?thesis using b unfolding borrows_ok_def by (simp add: cnt)
  qed
  moreover have "\<forall>h \<in> set ?hs. holder_ok r h"
  proof
    fix h assume "h \<in> set ?hs"
    from sub [OF this] show "holder_ok r h"
    proof
      assume "h = ?h"
      then show ?thesis by (simp add: holder_ok_def start_recv_read_def)
    next
      assume "h \<in> set hs"
      from live_invD(4) [OF inv this] show ?thesis .
    qed
  qed
  ultimately show ?thesis using ok live_invD(5) [OF inv] by (simp add: live_inv_def)
qed

lemma inv_recv_ends:
  assumes inv: "live_inv r pc hs" and k: "k < length hs" "hs ! k = (rcv, RHolding)"
    and op: "end_recv r rcv = Inr (ret, r1)"
  shows "live_inv r1 pc (hs[k := (rcv, RIdle)])"
proof -
  let ?hs = "hs[k := (rcv, RIdle)]"
  note ok = live_invD(1) [OF inv] and c = live_invD(2) [OF inv] and b = live_invD(3) [OF inv]
    and t = live_invD(5) [OF inv]
  from end_recv_Inr [OF op] obtain ix where ix: "index rcv = Some ix"
    and r1: "r1 = r\<lparr>num_borrows := (num_borrows r)[ix := num_borrows r ! ix - 1]\<rparr>"
    by auto
  have mem: "hs ! k \<in> set hs" using k(1) by (rule nth_mem)
  have old: "borrowed_slot (hs ! k) = Some ix" and new: "borrowed_slot (rcv, RIdle) = None"
    using k ix by (simp_all add: borrowed_slot_def)
  from borrowed_in_range [OF ok b mem old]
  have ixm: "ix < MAX_SEGMENTS" and ixn: "ix < num_segments r" and nz: "num_borrows r ! ix \<noteq> 0"
    by simp_all
  from ok have len: "length (num_borrows r) = MAX_SEGMENTS" by (simp add: ring_ok_def)
  have cnt: "borrowers ?hs i + (if i = ix then 1 else 0) = borrowers hs i" for i
    using borrowers_update [OF k(1), of "(rcv, RIdle)" i] old new by auto
  have sub: "h = (rcv, RIdle) \<or> h \<in> set hs" if "h \<in> set ?hs" for h
    using that set_update_subset_insert [of hs k "(rcv, RIdle)"] by auto
  have "ring_ok r1" using ok by (simp add: r1 ring_ok_def)
  moreover have "counts_ok r1 ?hs" using c by (simp add: r1 counts_ok_def)
  moreover have "borrows_ok r1 ?hs"
  proof -
    have "unat (num_borrows r1 ! i) = borrowers ?hs i" if i: "i < MAX_SEGMENTS" for i
    proof (cases "i = ix")
      case True
      from b ixm have "unat (num_borrows r ! ix) = borrowers hs ix"
        by (simp add: borrows_ok_def)
      with nz have "unat (num_borrows r ! ix - 1) = borrowers hs ix - 1"
        by (simp add: unat_dec)
      with True ixm len cnt [of ix] show ?thesis by (simp add: r1)
    next
      case False
      with b i cnt [of i] show ?thesis by (simp add: r1 borrows_ok_def)
    qed
    moreover have "i < num_segments r1" if "h \<in> set ?hs" "borrowed_slot h = Some i" for h i
      using sub [OF that(1)] that(2) new b by (auto simp: r1 borrows_ok_def)
    ultimately show ?thesis unfolding borrows_ok_def by blast
  qed
  moreover have "\<forall>h \<in> set ?hs. holder_ok r1 h"
  proof
    fix h assume "h \<in> set ?hs"
    from sub [OF this] show "holder_ok r1 h"
    proof
      assume "h = (rcv, RIdle)"
      then show ?thesis by (simp add: holder_ok_def)
    next
      assume "h \<in> set hs"
      from live_invD(4) [OF inv this] show ?thesis by (simp add: r1 holder_ok_def)
    qed
  qed
  moreover have "target_ok r1 pc"
  proof -
    have "num_borrows r1 ! u = 0" if "num_borrows r ! u = 0" for u
      using that nz by (cases "u = ix") (simp_all add: r1)
    with t show ?thesis by (simp add: r1 target_ok_def)
  qed
  ultimately show ?thesis by (simp add: live_inv_def)
qed

lemma inv_recv_clones:
  assumes inv: "live_inv r pc hs" and op: "new_receiver r rcv = Inr (rcv', err, r1)"
  shows "live_inv r1 pc (if err = 0 then hs @ [(rcv', RIdle)] else hs)"
proof (cases "num_segments r = MAX_SEGMENTS")
  case True
  with new_receiver_Inr [OF op] have "err \<noteq> 0" "r1 = r"
    by (simp_all add: MAX_RECEIVERS_def)
  with inv show ?thesis by simp
next
  case False
  note ok = live_invD(1) [OF inv] and c = live_invD(2) [OF inv] and b = live_invD(3) [OF inv]
    and t = live_invD(5) [OF inv]
  let ?hs = "hs @ [(rcv', RIdle)]"
  from False new_receiver_Inr [OF op] have err: "err = 0"
    and r1: "r1 = r\<lparr>segments := (segments r)[num_segments r := Fresh],
                num_segments := num_segments r + 1,
                num_receivers := num_receivers r + 1\<rparr>"
    by simp_all
  from False ok have room: "num_segments r < MAX_SEGMENTS" by (simp add: ring_ok_def)
  have new: "borrowed_slot (rcv', RIdle) = None" by (simp add: borrowed_slot_def)
  have "ring_ok r1"
  proof -
    have "segments r1 ! i \<noteq> Null" if "i < num_segments r + 1" for i
    proof (cases "i = num_segments r")
      case True
      with room ok show ?thesis by (simp add: r1 ring_ok_def)
    next
      case False
      with that have "i < num_segments r" by simp
      with ok False show ?thesis by (simp add: r1 ring_ok_def)
    qed
    then show ?thesis using ok room by (simp add: r1 ring_ok_def)
  qed
  moreover have "counts_ok r1 ?hs"
  proof -
    from c have n: "unat (num_receivers r) = length hs" by (simp add: counts_ok_def)
    with few_handles [OF ok c] have "unat (num_receivers r + 1) = length hs + 1"
      by (simp add: unat_inc)
    with c show ?thesis by (simp add: r1 counts_ok_def)
  qed
  moreover have "borrows_ok r1 ?hs"
    using b new by (auto simp: r1 borrows_ok_def borrowers_append)
  moreover have "\<forall>h \<in> set ?hs. holder_ok r1 h"
  proof
    fix h assume "h \<in> set ?hs"
    then have "h = (rcv', RIdle) \<or> h \<in> set hs" by auto
    then show "holder_ok r1 h"
    proof
      assume "h = (rcv', RIdle)"
      then show ?thesis by (simp add: holder_ok_def)
    next
      assume "h \<in> set hs"
      from live_invD(4) [OF inv this] show ?thesis by (simp add: r1 holder_ok_def)
    qed
  qed
  moreover have "target_ok r1 pc"
    using t by (auto simp: r1 target_ok_def)
  ultimately show ?thesis using err by (simp add: live_inv_def)
qed

lemma inv_recv_drops:
  assumes inv: "live_inv r pc hs" and k: "k < length hs" "hs ! k = (rcv, RIdle)"
    and op: "drop_recv r = Inr (Live r1)"
  shows "live_inv r1 pc (take k hs @ drop (Suc k) hs)"
proof -
  let ?hs = "take k hs @ drop (Suc k) hs"
  note ok = live_invD(1) [OF inv] and c = live_invD(2) [OF inv] and b = live_invD(3) [OF inv]
    and t = live_invD(5) [OF inv]
  from drop_recv_Inr [OF op] have r1: "r1 = r\<lparr>num_receivers := num_receivers r - 1\<rparr>"
    by simp
  have old: "borrowed_slot (hs ! k) = None" using k by (simp add: borrowed_slot_def)
  have cnt: "borrowers ?hs i = borrowers hs i" for i
    using borrowers_remove [OF k(1), of i] old by simp
  have sub: "h \<in> set hs" if "h \<in> set ?hs" for h
    using that set_take_subset [of k hs] set_drop_subset [of "Suc k" hs] by auto
  have len: "length ?hs = length hs - 1" using k by simp
  have "ring_ok r1" using ok by (simp add: r1 ring_ok_def)
  moreover have "counts_ok r1 ?hs"
  proof -
    from c k have "unat (num_receivers r) = length hs" "num_receivers r \<noteq> 0"
      by (auto simp: counts_ok_def)
    then have "unat (num_receivers r - 1) = length hs - 1" by (simp add: unat_dec)
    with c k show ?thesis unfolding counts_ok_def len by (auto simp: r1)
  qed
  moreover have "borrows_ok r1 ?hs"
    using b sub unfolding borrows_ok_def cnt by (simp add: r1) blast
  moreover have "\<forall>h \<in> set ?hs. holder_ok r1 h"
  proof
    fix h assume "h \<in> set ?hs"
    from live_invD(4) [OF inv sub [OF this]] show "holder_ok r1 h"
      by (simp add: r1 holder_ok_def)
  qed
  moreover have "target_ok r1 pc" using t by (simp add: r1 target_ok_def)
  ultimately show ?thesis by (simp add: live_inv_def)
qed

lemma step_inv:
  assumes "step s a s'" and "sys_inv s"
  shows "sys_inv s'"
  using assms
proof (induction rule: step.induct)
  case (send_returns s r ret r1)
  then show ?case by (simp add: sys_inv_def inv_send_returns)
next
  case (send_picks s r fw r1)
  then show ?case by (simp add: sys_inv_def inv_send_picks)
next
  case (send_copies s r fw data ts)
  then show ?case by (simp add: sys_inv_def inv_send_copies)
next
  case (send_ends s r fw r1)
  then show ?case by (simp add: sys_inv_def inv_send_ends)
next
  case (sender_drops s r st)
  then show ?case by (cases st) (simp_all add: sys_inv_def inv_sender_drops)
next
  case (recv_closed s r k rcv ret r1)
  then show ?case by (simp add: sys_inv_def inv_recv_closed)
next
  case (recv_acquires s r k rcv ix r1)
  then show ?case by (simp add: sys_inv_def inv_recv_acquires)
next
  case (recv_reads s r k rcv ix)
  then show ?case by (simp add: sys_inv_def inv_recv_reads)
next
  case (recv_ends s r k rcv ret r1)
  then show ?case by (simp add: sys_inv_def inv_recv_ends)
next
  case (recv_clones s r k rcv pc rcv' err r1)
  from inv_recv_clones [OF _ recv_clones(4)] recv_clones(1,5)
  show ?case by (simp add: sys_inv_def)
next
  case (recv_drops s r k rcv st)
  then show ?case by (cases st) (simp_all add: sys_inv_def inv_recv_drops)
qed

lemma init_inv: "sys_inv (init_sys b)"
proof -
  have "borrowers [(new_receiver_struct b, RIdle)] i = 0" for i
    by (simp add: borrowers_def borrowed_slot_def)
  then show ?thesis
    by (simp add: sys_inv_def init_sys_def live_inv_def ring_ok_def counts_ok_def
          borrows_ok_def holder_ok_def target_ok_def pc_target_def borrowed_slot_def
          fresh_defs nth_list_update less_Suc_eq_0_disj flag_defs)
qed

lemma run_inv:
  assumes "run s acts s'" and "sys_inv s"
  shows "sys_inv s'"
  using assms by (induction rule: run.induct) (auto intro: step_inv)

subsection \<open>Borrowed slots are left alone\<close>

lemma no_handles_no_borrows:
  assumes "borrows_ok r hs" and "\<forall>h \<in> set hs. borrowed_slot h = None" and "i < MAX_SEGMENTS"
  shows "num_borrows r ! i = 0"
proof -
  from assms(2) have "borrowers hs i = 0"
    by (simp add: borrowers_def filter_empty_conv)
  with assms(1,3) have "unat (num_borrows r ! i) = 0" by (simp add: borrows_ok_def)
  then show ?thesis by (simp add: unat_eq_0)
qed

lemma borrowed_has_holder:
  assumes "ring_ok r" "borrows_ok r hs" and "i < MAX_SEGMENTS" and "num_borrows r ! i \<noteq> 0"
  shows "i < num_segments r"
proof -
  from assms(2,3,4) have "0 < borrowers hs i"
    by (metis borrows_ok_def unat_gt_0)
  then obtain h where "h \<in> set hs" "borrowed_slot h = Some i"
    using borrowers_witness by blast
  with assms(2) show ?thesis by (auto simp: borrows_ok_def)
qed

lemma step_keeps_borrowed:
  assumes "step s a s'" and "sys_inv s" and "ring s = Live r"
    and "i < MAX_SEGMENTS" and "num_borrows r ! i \<noteq> 0"
  shows "\<exists>r'. ring s' = Live r' \<and> segments r' ! i = segments r ! i \<and>
              timestamps r' ! i = timestamps r ! i"
  using assms
proof (induction rule: step.induct)
  case (send_returns s r0 ret r1)
  with send_begin_Returned [OF send_returns(3)] show ?case by simp
next
  case (send_picks s r0 fw r1)
  with send_begin_Picked [OF send_picks(3)] show ?case by (simp split: if_splits)
next
  case (send_copies s r0 fw data ts)
  then have "target_ok r (SCopying fw)" by (simp add: sys_inv_def live_inv_def)
  with send_copies have "i \<noteq> fw" by (auto simp: target_ok_def pc_target_def)
  with send_copies show ?case by (simp add: send_copy_def)
next
  case (send_ends s r0 fw r1)
  with send_end_Inr [OF send_ends(3)] show ?case by simp
next
  case (sender_drops s r0 st)
  show ?case
  proof (cases "num_receivers r0 = 0")
    case True
    from sender_drops have inv: "live_inv r (sender_at s) (handles s)" and r: "r0 = r"
      by (simp_all add: sys_inv_def)
    from True r live_invD(2) [OF inv] have "handles s = []" by (simp add: counts_ok_def)
    with no_handles_no_borrows [OF live_invD(3) [OF inv] _ sender_drops(6)] sender_drops(7)
    show ?thesis by simp
  next
    case False
    with free_sender_Inr [OF sender_drops(3)] sender_drops show ?thesis by simp
  qed
next
  case (recv_closed s r0 k rcv ret r1)
  with start_recv_lock_Returned [OF recv_closed(4)] show ?case by simp
next
  case (recv_acquires s r0 k rcv ix r1)
  with start_recv_lock_Picked [OF recv_acquires(4)] show ?case by simp
next
  case (recv_reads s r0 k rcv ix)
  then show ?case by simp
next
  case (recv_ends s r0 k rcv ret r1)
  with end_recv_Inr [OF recv_ends(4)] show ?case by auto
next
  case (recv_clones s r0 k rcv pc rcv' err r1)
  then have inv: "live_inv r (sender_at s) (handles s)" and r: "r0 = r"
    by (simp_all add: sys_inv_def)
  from borrowed_has_holder [OF live_invD(1,3) [OF inv] recv_clones(7,8)]
  have "i \<noteq> num_segments r" by simp
  with new_receiver_Inr [OF recv_clones(4)] r show ?case by (simp split: if_splits)
next
  case (recv_drops s r0 k rcv st)
  then have inv: "live_inv r (sender_at s) (handles s)" and r: "r0 = r"
    by (simp_all add: sys_inv_def)
  from drop_recv_Inr [OF recv_drops(4)]
  consider "st = Freed" "num_receivers r0 - 1 = 0"
    | "st = Live (r0\<lparr>num_receivers := num_receivers r0 - 1, lock := False\<rparr>)"
    by blast
  then show ?case
  proof cases
    case 1
    then have "num_receivers r = 1" using r by simp
    with live_invD(2) [OF inv] have "length (handles s) = 1" by (simp add: counts_ok_def)
    with recv_drops(2,3) have "handles s = [(rcv, RIdle)]"
      by (cases "handles s") auto
    then have "\<forall>h \<in> set (handles s). borrowed_slot h = None"
      by (simp add: borrowed_slot_def)
    from no_handles_no_borrows [OF live_invD(3) [OF inv] this recv_drops(7)] recv_drops(8)
    show ?thesis by simp
  next
    case 2
    with r show ?thesis by simp
  qed
qed

text \<open>
  Claim C1. The operations are those of \<open>step\<close>, made by callers that keep to the
  protocol of the interface: a receiver holds one borrow at a time (\<^verbatim>\<open>end_recv\<close> once
  per successful \<^verbatim>\<open>start_recv\<close>, spec 4.3), the struct a failed \<^verbatim>\<open>new_receiver\<close> returns
  is not a live handle (spec 7), a handle is dropped between borrows and not used
  afterwards, and nothing is called on a freed ring. In every state the threads can
  reach from \<^verbatim>\<open>new_ringq\<close>, at the granularity of critical sections: no slot has
  \<^verbatim>\<open>num_borrows\<close> above 0 while it is the slot the sender is writing, and that slot is
  one of the allocated ones; no step of any thread changes the buffer or the
  timestamp of a slot whose \<^verbatim>\<open>num_borrows\<close> is above 0; and a receiver between
  \<^verbatim>\<open>start_recv\<close> and \<^verbatim>\<open>end_recv\<close> points at an allocated slot whose \<^verbatim>\<open>num_borrows\<close> is
  above 0 and whose timestamp is the one the receiver recorded. So what a receiver
  reads through its borrow stays as it was until its \<^verbatim>\<open>end_recv\<close>.
\<close>

theorem no_aliased_write:
  assumes "run (init_sys b) acts s" and "ring s = Live r"
  shows "(\<forall>i < MAX_SEGMENTS. \<not> (0 < num_borrows r ! i \<and> write_target s = Some i)) \<and>
         (\<forall>t. write_target s = Some t \<longrightarrow> t < num_segments r) \<and>
         (\<forall>i a s'. i < MAX_SEGMENTS \<and> 0 < num_borrows r ! i \<and> step s a s' \<longrightarrow>
            (\<exists>r'. ring s' = Live r' \<and> segments r' ! i = segments r ! i \<and>
                  timestamps r' ! i = timestamps r ! i)) \<and>
         (\<forall>h \<in> set (handles s). snd h = RHolding \<longrightarrow>
            (\<exists>i. index (fst h) = Some i \<and> data_ptr (fst h) = Some i \<and>
                 i < num_segments r \<and> 0 < num_borrows r ! i \<and>
                 timestamp (fst h) = Some (timestamps r ! i)))"
proof -
  from run_inv [OF assms(1) init_inv] have inv: "sys_inv s" .
  with assms(2) have live: "live_inv r (sender_at s) (handles s)"
    by (simp add: sys_inv_def)
  have p1: "\<forall>i < MAX_SEGMENTS. \<not> (0 < num_borrows r ! i \<and> write_target s = Some i)"
    using live_invD(5) [OF live] by (auto simp: target_ok_def write_target_def)
  have range: "\<forall>t. write_target s = Some t \<longrightarrow> t < num_segments r"
    using live_invD(5) [OF live] by (simp add: target_ok_def write_target_def)
  have frame: "\<forall>i a s'. i < MAX_SEGMENTS \<and> 0 < num_borrows r ! i \<and> step s a s' \<longrightarrow>
            (\<exists>r'. ring s' = Live r' \<and> segments r' ! i = segments r ! i \<and>
                  timestamps r' ! i = timestamps r ! i)"
    using step_keeps_borrowed [OF _ inv assms(2)] by (simp add: word_neq_0_conv) blast
  have holders: "\<forall>h \<in> set (handles s). snd h = RHolding \<longrightarrow>
            (\<exists>i. index (fst h) = Some i \<and> data_ptr (fst h) = Some i \<and>
                 i < num_segments r \<and> 0 < num_borrows r ! i \<and>
                 timestamp (fst h) = Some (timestamps r ! i))"
  proof (intro ballI impI)
    fix h assume h: "h \<in> set (handles s)" "snd h = RHolding"
    with live_invD(4) [OF live h(1)] obtain i where
      i: "index (fst h) = Some i" "data_ptr (fst h) = Some i"
         "timestamp (fst h) = Some (timestamps r ! i)"
      by (auto simp: holder_ok_def)
    from h i have "borrowed_slot h = Some i" by (simp add: borrowed_slot_def)
    from borrowed_in_range [OF live_invD(1,3) [OF live] h(1) this] i
    show "\<exists>i. index (fst h) = Some i \<and> data_ptr (fst h) = Some i \<and>
                 i < num_segments r \<and> 0 < num_borrows r ! i \<and>
                 timestamp (fst h) = Some (timestamps r ! i)"
      by (simp add: word_neq_0_conv)
  qed
  from p1 range frame holders show ?thesis by blast
qed

theorem no_aliased_write_witness:
  "run (init_sys 4) [StartRecvLock 0, StartRecvRead 0, SendBegin]
     \<lparr> ring = Live ((fst (new_ringq 4))
                \<lparr>num_borrows := (replicate 16 0)[1 := 1], prev_written_block := 0\<rparr>),
       sender_at = SCopying 2,
       handles = [(\<lparr>r_bufsize = 4, index = Some 1, data_ptr = Some 1, timestamp = Some 0\<rparr>,
                   RHolding)] \<rparr> \<and>
   write_target
     \<lparr> ring = Live ((fst (new_ringq 4))
                \<lparr>num_borrows := (replicate 16 0)[1 := 1], prev_written_block := 0\<rparr>),
       sender_at = SCopying 2,
       handles = [(\<lparr>r_bufsize = 4, index = Some 1, data_ptr = Some 1, timestamp = Some 0\<rparr>,
                   RHolding)] \<rparr> = Some 2 \<and>
   \<not> 0 < num_borrows ((fst (new_ringq 4))
                \<lparr>num_borrows := (replicate 16 0)[1 := 1], prev_written_block := 0\<rparr>) ! 2 \<and>
   0 < num_borrows ((fst (new_ringq 4))
                \<lparr>num_borrows := (replicate 16 0)[1 := 1], prev_written_block := 0\<rparr>) ! 1"
proof -
  let ?r = "(fst (new_ringq 4))
              \<lparr>num_borrows := (replicate 16 0)[1 := 1], prev_written_block := 0\<rparr>"
  let ?s = "\<lparr> ring = Live ?r, sender_at = SCopying 2,
       handles = [(\<lparr>r_bufsize = 4, index = Some 1, data_ptr = Some 1, timestamp = Some 0\<rparr>,
                   RHolding)] \<rparr>"
  have reach: "run (init_sys 4) [StartRecvLock 0, StartRecvRead 0, SendBegin] ?s"
    by code_simp
  have live: "ring ?s = Live ?r"
    by simp
  have target: "write_target ?s = Some 2"
    by (simp add: write_target_def pc_target_def)
  have two: "(2::nat) < MAX_SEGMENTS"
    by (simp add: MAX_SEGMENTS_def)
  from no_aliased_write [OF reach live] two target
  have "\<not> 0 < num_borrows ?r ! 2"
    by blast
  moreover have "0 < num_borrows ?r ! 1"
    by (simp add: fresh_defs)
  ultimately show ?thesis
    using reach target by blast
qed

text \<open>\<^verbatim>\<open>FLAG_CONFLATION\<close> is never set and the pool stays sufficient in every state the
  threads can reach.\<close>

lemma never_conflating:
  assumes "run (init_sys b) acts s" and "ring s = Live r"
  shows "flags r AND FLAG_CONFLATION = 0"
proof -
  from run_inv [OF assms(1) init_inv] assms(2)
  have "target_ok r (sender_at s)" by (simp add: sys_inv_def live_inv_def)
  then show ?thesis by (simp add: target_ok_def)
qed

lemma pool_ok_reachable:
  assumes "run (init_sys b) acts s" and "ring s = Live r"
  shows "pool_ok r"
proof -
  from run_inv [OF assms(1) init_inv] assms(2)
  have "counts_ok r (handles s)" by (simp add: sys_inv_def live_inv_def)
  then show ?thesis
    unfolding counts_ok_def pool_ok_def by (simp only: max_def) (simp split: if_splits)
qed

subsection \<open>The pool is large enough\<close>

lemma send_begin_counts:
  "send_begin r = Inr (x, r') \<Longrightarrow>
   num_segments r' = num_segments r \<and> num_receivers r' = num_receivers r"
  by (cases x) (auto dest!: send_begin_Returned send_begin_Picked split: if_splits)

lemma send_end_counts:
  "send_end r fw = Inr r' \<Longrightarrow>
   num_segments r' = num_segments r \<and> num_receivers r' = num_receivers r"
  by (auto dest!: send_end_Inr)

lemma send_counts:
  "send r d t = Inr (e, r') \<Longrightarrow>
   num_segments r' = num_segments r \<and> num_receivers r' = num_receivers r"
  by (auto simp: send_def send_copy_def dest!: send_begin_counts send_end_counts
      split: sum.splits prod.splits section_result.splits)

lemma start_recv_lock_counts:
  "start_recv_lock r = Inr (x, r') \<Longrightarrow>
   num_segments r' = num_segments r \<and> num_receivers r' = num_receivers r"
  by (cases x) (auto dest!: start_recv_lock_Returned start_recv_lock_Picked)

lemma start_recv_counts:
  "start_recv r h = Inr (e, r', h') \<Longrightarrow>
   num_segments r' = num_segments r \<and> num_receivers r' = num_receivers r"
  by (auto simp: start_recv_def dest!: start_recv_lock_counts
      split: sum.splits prod.splits section_result.splits)

lemma end_recv_counts:
  "end_recv r h = Inr (e, r') \<Longrightarrow>
   num_segments r' = num_segments r \<and> num_receivers r' = num_receivers r"
  by (auto dest!: end_recv_Inr)

lemma free_sender_counts:
  "free_sender r = Inr (Live r') \<Longrightarrow>
   num_segments r' = num_segments r \<and> num_receivers r' = num_receivers r"
  by (auto dest!: free_sender_Inr split: if_splits)

lemma pool_ok_counts:
  "num_segments r' = num_segments r \<and> num_receivers r' = num_receivers r \<Longrightarrow>
   pool_ok r \<Longrightarrow> pool_ok r'"
  by (simp add: pool_ok_def)

lemma new_receiver_pool:
  assumes "pool_ok r" and "new_receiver r h = Inr (h', e, r')"
  shows "pool_ok r'"
proof (cases "num_segments r = MAX_SEGMENTS")
  case True
  with new_receiver_Inr [OF assms(2)] assms(1) show ?thesis by simp
next
  case False
  with new_receiver_Inr [OF assms(2)]
  have r': "num_segments r' = num_segments r + 1" "num_receivers r' = num_receivers r + 1"
    by simp_all
  have "unat (num_receivers r + 1) \<le> unat (num_receivers r) + 1"
    by (simp add: unat_word_ariths)
  with assms(1) show ?thesis
    unfolding pool_ok_def r' by (simp only: max_def) (simp split: if_splits)
qed

lemma drop_recv_pool:
  assumes "pool_ok r" and "num_receivers r \<noteq> 0" and "drop_recv r = Inr (Live r')"
  shows "pool_ok r'"
proof -
  from drop_recv_Inr [OF assms(3)]
  have r': "num_segments r' = num_segments r" "num_receivers r' = num_receivers r - 1"
    by auto
  from assms(2) have "unat (num_receivers r - 1) = unat (num_receivers r) - 1"
    by (rule unat_dec)
  with assms(1) show ?thesis
    unfolding pool_ok_def r' by (simp only: max_def) (simp split: if_splits)
qed

text \<open>
  Claim C8. \<^verbatim>\<open>num_segments \<ge> max(3, num_receivers + 2)\<close> holds of the ring \<^verbatim>\<open>new_ringq\<close>
  returns, and every operation that returns on a ring where it holds leaves a ring
  where it holds: \<^verbatim>\<open>send\<close> (and each of its three parts), \<^verbatim>\<open>start_recv\<close>, \<^verbatim>\<open>end_recv\<close>,
  \<^verbatim>\<open>new_receiver\<close>, \<^verbatim>\<open>free_sender\<close> when it leaves the ring alive, and the receiver's
  drop when it leaves the ring alive. The drop is that of a counted receiver, so
  \<^verbatim>\<open>num_receivers\<close> is not 0 before it.
\<close>

theorem pool_sufficiency_preserved:
  "pool_ok (fst (new_ringq b)) \<and>
   (pool_ok r \<longrightarrow>
      (\<forall>d t e r'. send r d t = Inr (e, r') \<longrightarrow> pool_ok r') \<and>
      (\<forall>x r'. send_begin r = Inr (x, r') \<longrightarrow> pool_ok r') \<and>
      (\<forall>fw d t. pool_ok (send_copy r fw d t)) \<and>
      (\<forall>fw r'. send_end r fw = Inr r' \<longrightarrow> pool_ok r') \<and>
      (\<forall>h e r' h'. start_recv r h = Inr (e, r', h') \<longrightarrow> pool_ok r') \<and>
      (\<forall>h e r'. end_recv r h = Inr (e, r') \<longrightarrow> pool_ok r') \<and>
      (\<forall>h h' e r'. new_receiver r h = Inr (h', e, r') \<longrightarrow> pool_ok r') \<and>
      (\<forall>r'. free_sender r = Inr (Live r') \<longrightarrow> pool_ok r') \<and>
      (\<forall>r'. num_receivers r \<noteq> 0 \<and> drop_recv r = Inr (Live r') \<longrightarrow> pool_ok r'))"
proof (intro conjI impI allI)
  show "pool_ok (fst (new_ringq b))"
    by (simp add: pool_ok_def fresh_defs)
next
  fix d t e r' assume "pool_ok r" "send r d t = Inr (e, r')"
  then show "pool_ok r'" by (blast intro: pool_ok_counts dest: send_counts)
next
  fix x r' assume "pool_ok r" "send_begin r = Inr (x, r')"
  then show "pool_ok r'" by (blast intro: pool_ok_counts dest: send_begin_counts)
next
  fix fw d t assume "pool_ok r"
  then show "pool_ok (send_copy r fw d t)" by (simp add: pool_ok_def send_copy_def)
next
  fix fw r' assume "pool_ok r" "send_end r fw = Inr r'"
  then show "pool_ok r'" by (blast intro: pool_ok_counts dest: send_end_counts)
next
  fix h e r' h' assume "pool_ok r" "start_recv r h = Inr (e, r', h')"
  then show "pool_ok r'" by (blast intro: pool_ok_counts dest: start_recv_counts)
next
  fix h e r' assume "pool_ok r" "end_recv r h = Inr (e, r')"
  then show "pool_ok r'" by (blast intro: pool_ok_counts dest: end_recv_counts)
next
  fix h h' e r' assume "pool_ok r" "new_receiver r h = Inr (h', e, r')"
  then show "pool_ok r'" by (rule new_receiver_pool)
next
  fix r' assume "pool_ok r" "free_sender r = Inr (Live r')"
  then show "pool_ok r'" by (blast intro: pool_ok_counts dest: free_sender_counts)
next
  fix r' assume "pool_ok r" "num_receivers r \<noteq> 0 \<and> drop_recv r = Inr (Live r')"
  then show "pool_ok r'" by (blast intro: drop_recv_pool)
qed

theorem pool_sufficiency_preserved_witness:
  "pool_ok (fst (new_ringq 4)) \<and>
   new_receiver (fst (new_ringq 4)) (receiver (snd (new_ringq 4))) =
     Inr (new_receiver_struct 4, 0,
          (fst (new_ringq 4))
            \<lparr>segments := (segments (fst (new_ringq 4)))[3 := Fresh],
             num_segments := 4, num_receivers := 2\<rparr>) \<and>
   pool_ok ((fst (new_ringq 4))
            \<lparr>segments := (segments (fst (new_ringq 4)))[3 := Fresh],
             num_segments := 4, num_receivers := 2\<rparr>)"
proof -
  let ?r = "fst (new_ringq 4)"
  let ?r' = "?r\<lparr>segments := (segments ?r)[3 := Fresh], num_segments := 4, num_receivers := 2\<rparr>"
  have clone: "new_receiver ?r (receiver (snd (new_ringq 4))) = Inr (new_receiver_struct 4, 0, ?r')"
    by (simp add: fresh_defs new_receiver_def new_segment_def mutex_defs)
  from pool_sufficiency_preserved [of 4 ?r] have ok: "pool_ok ?r"
    and keep: "\<forall>h h' e r'. new_receiver ?r h = Inr (h', e, r') \<longrightarrow> pool_ok r'"
    by blast+
  from keep clone have "pool_ok ?r'" by blast
  with ok clone show ?thesis by blast
qed

end
